theory Spec2Isabelle
  imports Complex_Main "HOL-Library.Sublist" "HOL-Library.Product_Lexorder"
    "HOL-Library.Option_ord" "HOL-Library.Log_Nat"
begin

section \<open>Data model\<close>

text \<open>
  An edge is the triple \<open>(u, v, weight)\<close> of \<open>edges_list\<close>; nodes are the dense indices
  that \<open>node_map\<close> assigns (0 .. N-1), weights are Python integers.
\<close>

type_synonym edge = "nat \<times> nat \<times> int"

text \<open>Exceptions the interpreter can raise in the modelled code.\<close>

datatype error = IndexError | KeyError

text \<open>
  The second component of an algorithm's result: \<open>None\<close>, or one of the two messages
  \<^verbatim>\<open>"Graph is empty"\<close> (\<open>EmptyGraph\<close>) and
  \<^verbatim>\<open>"Graph is unconnected ... partial MST returned"\<close> (\<open>Unconnected\<close>).
\<close>

datatype condition = EmptyGraph | Unconnected

text \<open>The attributes of an \<open>MSTAlgorithms\<close> instance (\<open>node_map\<close> is applied on input).\<close>

record engine =
  num_nodes :: nat
  edges_list :: "edge list"
  adj_list :: "(nat \<times> int) list list"
  runtime :: real
  edge_comparisons :: int
  iterations :: int

definition reset_metrics :: "engine \<Rightarrow> engine" where
  "reset_metrics s = s\<lparr>runtime := 0, edge_comparisons := 0, iterations := 0\<rparr>"

definition get_metrics :: "engine \<Rightarrow> real \<times> int \<times> int" where
  "get_metrics s = (runtime s, edge_comparisons s, iterations s)"

text \<open>
  The loop of \<open>__init__\<close> that fills \<open>adj_list\<close>: \<open>adj_list[u].append((v, w))\<close> and then
  \<open>adj_list[v].append((u, w))\<close>; an index outside the list raises.
\<close>

fun build_adj :: "edge list \<Rightarrow> (nat \<times> int) list list \<Rightarrow> error + (nat \<times> int) list list" where
  "build_adj [] adj = Inr adj"
| "build_adj ((u, v, w) # es) adj =
     (if length adj \<le> u then Inl IndexError
      else let adj1 = adj[u := adj ! u @ [(v, w)]] in
        if length adj1 \<le> v then Inl IndexError
        else build_adj es (adj1[v := adj1 ! v @ [(u, w)]]))"

text \<open>
  \<open>__init__\<close>, on a graph of \<open>n\<close> nodes whose edges, already renamed by \<open>node_map\<close>, are \<open>es\<close>.
\<close>

definition init :: "nat \<Rightarrow> edge list \<Rightarrow> error + engine" where
  "init n es =
     (case build_adj es (replicate n []) of
        Inl e \<Rightarrow> Inl e
      | Inr adj \<Rightarrow> Inr (reset_metrics \<lparr>num_nodes = n, edges_list = es, adj_list = adj,
                                      runtime = 0, edge_comparisons = 0, iterations = 0\<rparr>))"

section \<open>Union-Find\<close>

text \<open>
  \<open>find\<close> with path compression. It returns the mutated \<open>parent\<close> list with the root.
  The recursion follows parent links and need not end on an arbitrary list, so the
  function is partial: \<open>None\<close> is "does not return".
\<close>

partial_function (option) find_uf :: "nat list \<Rightarrow> nat \<Rightarrow> (error + nat list \<times> nat) option" where
  "find_uf parent i =
     (if length parent \<le> i then Some (Inl IndexError)
      else if parent ! i \<noteq> i then
        Option.bind (find_uf parent (parent ! i))
          (\<lambda>res. case res of
             Inl e \<Rightarrow> Some (Inl e)
           | Inr (parent1, r) \<Rightarrow>
               if length parent1 \<le> i then Some (Inl IndexError)
               else Some (Inr (parent1[i := r], parent1[i := r] ! i)))
      else Some (Inr (parent, parent ! i)))"

declare find_uf.simps [code]

text \<open>\<open>union\<close> by rank; returns the mutated \<open>parent\<close> and \<open>rank\<close> lists.\<close>

definition union_uf ::
  "nat list \<Rightarrow> nat list \<Rightarrow> nat \<Rightarrow> nat \<Rightarrow> (error + nat list \<times> nat list) option" where
  "union_uf parent rank x y =
     (case find_uf parent x of
        None \<Rightarrow> None
      | Some (Inl e) \<Rightarrow> Some (Inl e)
      | Some (Inr (parent1, px0)) \<Rightarrow>
        (case find_uf parent1 y of
           None \<Rightarrow> None
         | Some (Inl e) \<Rightarrow> Some (Inl e)
         | Some (Inr (parent2, py0)) \<Rightarrow>
             if px0 = py0 then Some (Inr (parent2, rank))
             else if length rank \<le> px0 \<or> length rank \<le> py0 then Some (Inl IndexError)
             else let (px, py) = (if rank ! px0 < rank ! py0 then (py0, px0) else (px0, py0)) in
               if length parent2 \<le> py then Some (Inl IndexError)
               else let parent3 = parent2[py := px] in
                 if rank ! px = rank ! py then Some (Inr (parent3, rank[px := rank ! px + 1]))
                 else Some (Inr (parent3, rank))))"

section \<open>Kruskal\<close>

text \<open>\<open>int.bit_length()\<close> of a non-negative integer.\<close>

fun bit_length :: "nat \<Rightarrow> nat" where
  "bit_length n = (if n = 0 then 0 else Suc (bit_length (n div 2)))"

declare bit_length.simps [simp del]

text \<open>
  The sorting phase: \<open>sorted(self.edges_list, key=lambda x: x[2])\<close>, a stable sort by
  weight, and the increment of \<open>edge_comparisons\<close> that follows it.
\<close>

definition weight_of :: "edge \<Rightarrow> int" where
  "weight_of e = snd (snd e)"

definition kruskal_sort_phase :: "engine \<Rightarrow> edge list \<times> engine" where
  "kruskal_sort_phase s =
     (let edges = sort_key weight_of (edges_list s) in
      (edges, s\<lparr>edge_comparisons := edge_comparisons s
                  + int (length edges) * (int (bit_length (length edges)) - 1)\<rparr>))"

text \<open>
  The body of the loop \<open>for u, v, weight in edges\<close>, on the metrics of \<open>self\<close> (in \<open>s\<close>)
  and the local variables \<open>parent\<close>, \<open>rank\<close> and \<open>mst_edges\<close>.
\<close>

type_synonym kruskal_state = "engine \<times> nat list \<times> nat list \<times> edge list"

fun kruskal_body :: "edge \<Rightarrow> kruskal_state \<Rightarrow> (error + kruskal_state) option" where
  "kruskal_body (u, v, weight) (s, parent, rank, mst_edges) =
     (let s1 = s\<lparr>iterations := iterations s + 1\<rparr> in
      case find_uf parent u of
        None \<Rightarrow> None
      | Some (Inl e) \<Rightarrow> Some (Inl e)
      | Some (Inr (parent1, x)) \<Rightarrow>
        (case find_uf parent1 v of
           None \<Rightarrow> None
         | Some (Inl e) \<Rightarrow> Some (Inl e)
         | Some (Inr (parent2, y)) \<Rightarrow>
           (let s2 = s1\<lparr>edge_comparisons := edge_comparisons s1 + 1\<rparr> in
            if x \<noteq> y then
              (case union_uf parent2 rank x y of
                 None \<Rightarrow> None
               | Some (Inl e) \<Rightarrow> Some (Inl e)
               | Some (Inr (parent3, rank3)) \<Rightarrow>
                   Some (Inr (s2, parent3, rank3, mst_edges @ [(u, v, weight)])))
            else Some (Inr (s2, parent2, rank, mst_edges)))))"

text \<open>The loop itself: the body on each edge in turn, stopping at an exception.\<close>

fun kruskal_loop :: "edge list \<Rightarrow> kruskal_state \<Rightarrow> (error + kruskal_state) option" where
  "kruskal_loop [] st = Some (Inr st)"
| "kruskal_loop (e # es) st =
     (case kruskal_body e st of
        None \<Rightarrow> None
      | Some (Inl x) \<Rightarrow> Some (Inl x)
      | Some (Inr st') \<Rightarrow> kruskal_loop es st')"

text \<open>
  \<open>kruskal_mst\<close>. The two readings of \<open>time.perf_counter()\<close> are the arguments \<open>t0\<close>
  (at the start) and \<open>t1\<close> (at the end).
\<close>

definition kruskal_mst ::
  "engine \<Rightarrow> real \<Rightarrow> real \<Rightarrow> (error + (edge list \<times> condition option) \<times> engine) option" where
  "kruskal_mst s t0 t1 =
     (let s0 = reset_metrics s in
      if num_nodes s0 = 0 then
        Some (Inr (([], Some EmptyGraph), s0\<lparr>runtime := (t1 - t0) * 1000\<rparr>))
      else
        let (edges, s1) = kruskal_sort_phase s0 in
        case kruskal_loop edges (s1, [0..<num_nodes s1], replicate (num_nodes s1) 0, []) of
          None \<Rightarrow> None
        | Some (Inl e) \<Rightarrow> Some (Inl e)
        | Some (Inr (s2, parent, rank, mst_edges)) \<Rightarrow>
            Some (Inr ((mst_edges, None), s2\<lparr>runtime := (t1 - t0) * 1000\<rparr>)))"

section \<open>Prim\<close>

text \<open>
  A heap entry is the tuple \<open>(weight, node, parent)\<close>; tuples compare lexicographically.
  The heap is kept as the list of its entries: \<open>heappush\<close> adds one, \<open>heappop\<close> takes out
  a least one, which is all that \<open>heapq\<close> lets the algorithm observe.
\<close>

type_synonym entry = "int \<times> nat \<times> nat option"

definition heappush :: "entry list \<Rightarrow> entry \<Rightarrow> entry list" where
  "heappush h x = x # h"

definition heappop :: "entry list \<Rightarrow> entry \<times> entry list" where
  "heappop h = (min_list h, remove1 (min_list h) h)"

text \<open>The local variables of \<open>prim_mst\<close>.\<close>

record prim_locals =
  visited :: "nat set"
  heap :: "entry list"
  in_heap :: "nat \<rightharpoonup> int"
  mst_edges :: "edge list"

text \<open>The loop \<open>for v, w in self.adj_list[u]\<close>.\<close>

fun relax :: "nat \<Rightarrow> (nat \<times> int) list \<Rightarrow> engine \<times> prim_locals \<Rightarrow> engine \<times> prim_locals" where
  "relax u [] (s, l) = (s, l)"
| "relax u ((v, w) # rest) (s, l) =
     (if v \<notin> visited l then
        (if (case in_heap l v of None \<Rightarrow> True | Some w' \<Rightarrow> w < w') then
           relax u rest
             (s\<lparr>edge_comparisons := edge_comparisons s + 1\<rparr>,
              l\<lparr>heap := heappush (heap l) (w, v, Some u), in_heap := (in_heap l)(v \<mapsto> w)\<rparr>)
         else relax u rest (s, l))
      else relax u rest (s, l))"

text \<open>
  The body of the loop \<open>while heap\<close>, entered on a heap that is not empty.
  \<open>del in_heap[u]\<close> raises on a missing key, \<open>self.adj_list[u]\<close> on an index out of range.
\<close>

definition prim_body :: "engine \<Rightarrow> prim_locals \<Rightarrow> error + engine \<times> prim_locals" where
  "prim_body s l =
     (let s1 = s\<lparr>iterations := iterations s + 1\<rparr>;
          (item, h) = heappop (heap l);
          weight = fst item; u = fst (snd item); parent = snd (snd item);
          s2 = s1\<lparr>edge_comparisons := edge_comparisons s1 + 1\<rparr>
      in
        if u \<in> visited l then Inr (s2, l\<lparr>heap := h\<rparr>)
        else
          (case in_heap l u of
             None \<Rightarrow> Inl KeyError
           | Some _ \<Rightarrow>
               let l1 = l\<lparr>visited := insert u (visited l), heap := h,
                          in_heap := (in_heap l)(u := None),
                          mst_edges := (case parent of
                                          None \<Rightarrow> mst_edges l
                                        | Some p \<Rightarrow> mst_edges l @ [(p, u, weight)])\<rparr>
               in
                 if length (adj_list s2) \<le> u then Inl IndexError
                 else Inr (relax u (adj_list s2 ! u) (s2, l1))))"

lemma relax_adj_list [simp]: "adj_list (fst (relax u nbrs sl)) = adj_list (fst sl)"
  by (induction u nbrs sl rule: relax.induct) auto

lemma relax_visited [simp]: "visited (snd (relax u nbrs sl)) = visited (snd sl)"
  by (induction u nbrs sl rule: relax.induct) auto

lemma card_unvisited_less:
  assumes "u < n" "u \<notin> V"
  shows "n - card (insert u V \<inter> {..<n}) < n - card (V \<inter> {..<(n::nat)})"
proof -
  have fin: "finite (V \<inter> {..<n})" by simp
  have eq: "insert u V \<inter> {..<n} = insert u (V \<inter> {..<n})" using assms by auto
  have "card (insert u (V \<inter> {..<n})) = Suc (card (V \<inter> {..<n}))"
    using assms fin by (subst card_insert_disjoint) auto
  moreover have "card (insert u (V \<inter> {..<n})) \<le> n"
    using card_mono[of "{..<n}" "insert u (V \<inter> {..<n})"] assms by auto
  ultimately show ?thesis using eq by simp
qed

definition prim_measure :: "(engine \<times> prim_locals) rel" where
  "prim_measure =
     measures [\<lambda>(s, l). length (adj_list s) - card (visited l \<inter> {..<length (adj_list s)}),
               \<lambda>(s, l). length (heap l)]"

lemma prim_body_decreases:
  assumes "heap l \<noteq> []" and "prim_body s l = Inr (s', l')"
  shows "((s', l'), (s, l)) \<in> prim_measure"
proof -
  obtain item h where pop: "heappop (heap l) = (item, h)"
    by (cases "heappop (heap l)")
  define u where "u = fst (snd item)"
  have len: "length h < length (heap l)"
    using pop assms(1) by (auto simp: heappop_def length_remove1 min_list_Min)
  show ?thesis
  proof (cases "u \<in> visited l")
    case True
    then have "adj_list s' = adj_list s" "visited l' = visited l" "heap l' = h"
      using assms(2) pop by (auto simp: prim_body_def u_def Let_def)
    then show ?thesis using len by (simp add: prim_measure_def)
  next
    case False
    then obtain l1 s2 where r: "relax u (adj_list s ! u) (s2, l1) = (s', l')"
      and s2: "adj_list s2 = adj_list s" and l1: "visited l1 = insert u (visited l)"
      and u: "u < length (adj_list s)"
      using assms(2) pop
      by (auto simp: prim_body_def u_def Let_def split: option.splits if_splits)
    have "adj_list s' = adj_list s"
      using relax_adj_list[of u "adj_list s ! u" "(s2, l1)"] by (simp add: r s2)
    moreover have "visited l' = insert u (visited l)"
      using relax_visited[of u "adj_list s ! u" "(s2, l1)"] by (simp add: r l1)
    ultimately show ?thesis
      using card_unvisited_less[OF u False] by (simp add: prim_measure_def)
  qed
qed

text \<open>The loop \<open>while heap\<close>.\<close>

function prim_loop :: "engine \<Rightarrow> prim_locals \<Rightarrow> error + engine \<times> prim_locals" where
  "prim_loop s l =
     (if heap l = [] then Inr (s, l)
      else case prim_body s l of
             Inl e \<Rightarrow> Inl e
           | Inr (s', l') \<Rightarrow> prim_loop s' l')"
  by pat_completeness auto

termination prim_loop
proof (relation prim_measure, goal_cases)
  case 1
  then show ?case by (simp add: prim_measure_def)
next
  case (2 s l x21 s' l')
  then show ?case using prim_body_decreases[of l s s' l'] by simp
qed

declare prim_loop.simps [simp del]

text \<open>\<open>prim_mst\<close>, with the two clock readings as for \<open>kruskal_mst\<close>.\<close>

definition prim_mst ::
  "engine \<Rightarrow> real \<Rightarrow> real \<Rightarrow> error + (edge list \<times> condition option) \<times> engine" where
  "prim_mst s t0 t1 =
     (let s0 = reset_metrics s in
      if num_nodes s0 = 0 then
        Inr (([], Some EmptyGraph), s0\<lparr>runtime := (t1 - t0) * 1000\<rparr>)
      else
        case prim_loop s0 \<lparr>visited = {}, heap = [(0, 0, None)], in_heap = [0 \<mapsto> 0],
                           mst_edges = []\<rparr> of
          Inl e \<Rightarrow> Inl e
        | Inr (s1, l) \<Rightarrow>
            let s2 = s1\<lparr>runtime := (t1 - t0) * 1000\<rparr> in
            if int (card (visited l)) < int (num_nodes s2)
            then Inr ((mst_edges l, Some Unconnected), s2)
            else Inr ((mst_edges l, None), s2))"

section \<open>Animation traces\<close>

text \<open>
  The events a generator yields: \<open>('vertex', u)\<close>, \<open>('edge', (u, v))\<close> and
  \<open>('final', (mst_edges, error))\<close>. A generator is modelled by the list of what it yields.
\<close>

datatype event = Vertex nat | Edge nat nat | Final "edge list" "condition option"

text \<open>The loop of \<open>kruskal_mst_with_animation\<close>, from the set \<open>visited_vertices\<close>.\<close>

fun kruskal_steps :: "edge list \<Rightarrow> nat set \<Rightarrow> event list" where
  "kruskal_steps [] visited_vertices = []"
| "kruskal_steps ((u, v, weight) # rest) visited_vertices =
     (let (ev1, vs1) = (if u \<notin> visited_vertices then ([Vertex u], insert u visited_vertices)
                        else ([], visited_vertices));
          (ev2, vs2) = (if v \<notin> vs1 then ([Vertex v], insert v vs1) else ([], vs1))
      in ev1 @ ev2 @ [Edge u v] @ kruskal_steps rest vs2)"

definition kruskal_mst_with_animation ::
  "engine \<Rightarrow> real \<Rightarrow> real \<Rightarrow> (error + event list \<times> engine) option" where
  "kruskal_mst_with_animation s t0 t1 =
     (case kruskal_mst s t0 t1 of
        None \<Rightarrow> None
      | Some (Inl e) \<Rightarrow> Some (Inl e)
      | Some (Inr ((mst, error), s')) \<Rightarrow>
          if error \<noteq> None then Some (Inr ([Final [] error], s'))
          else Some (Inr (kruskal_steps mst {} @ [Final mst None], s')))"

text \<open>The loop of \<open>prim_mst_with_animation\<close>.\<close>

fun prim_steps :: "edge list \<Rightarrow> nat set \<Rightarrow> event list" where
  "prim_steps [] visited_vertices = []"
| "prim_steps ((parent, u, weight) # rest) visited_vertices =
     (if u \<notin> visited_vertices
      then Vertex u # Edge parent u # prim_steps rest (insert u visited_vertices)
      else Edge parent u # prim_steps rest visited_vertices)"

definition prim_mst_with_animation ::
  "engine \<Rightarrow> real \<Rightarrow> real \<Rightarrow> error + event list \<times> engine" where
  "prim_mst_with_animation s t0 t1 =
     (case prim_mst s t0 t1 of
        Inl e \<Rightarrow> Inl e
      | Inr ((mst, error), s') \<Rightarrow>
          if error \<noteq> None then Inr ([Final [] error], s')
          else Inr (Vertex 0 # prim_steps mst {0} @ [Final mst None], s'))"

section \<open>Concrete graphs\<close>

text \<open>Four nodes, edges (0,1,5), (1,2,3), (2,3,1), (0,3,10).\<close>

definition scenario4 :: engine where
  "scenario4 = \<lparr>num_nodes = 4, edges_list = [(0, 1, 5), (1, 2, 3), (2, 3, 1), (0, 3, 10)],
      adj_list = [[(1, 5), (3, 10)], [(0, 5), (2, 3)], [(1, 3), (3, 1)], [(2, 1), (0, 10)]],
      runtime = 0, edge_comparisons = 0, iterations = 0\<rparr>"

text \<open>Three nodes with the single edge (0,1,2): node 2 is isolated.\<close>

definition scenario3 :: engine where
  "scenario3 = \<lparr>num_nodes = 3, edges_list = [(0, 1, 2)],
      adj_list = [[(1, 2)], [(0, 2)], []],
      runtime = 0, edge_comparisons = 0, iterations = 0\<rparr>"

text \<open>A triangle: three nodes, three edges.\<close>

definition triangle :: engine where
  "triangle = \<lparr>num_nodes = 3, edges_list = [(0, 1, 1), (1, 2, 2), (0, 2, 3)],
      adj_list = [[(1, 1), (2, 3)], [(0, 1), (2, 2)], [(1, 2), (0, 3)]],
      runtime = 0, edge_comparisons = 0, iterations = 0\<rparr>"

text \<open>The graph without nodes.\<close>

definition empty_graph :: engine where
  "empty_graph = \<lparr>num_nodes = 0, edges_list = [], adj_list = [],
      runtime = 0, edge_comparisons = 0, iterations = 0\<rparr>"

lemma init_scenario4: "init 4 [(0, 1, 5), (1, 2, 3), (2, 3, 1), (0, 3, 10)] = Inr scenario4"
  unfolding scenario4_def by code_simp

lemma init_scenario3: "init 3 [(0, 1, 2)] = Inr scenario3"
  unfolding scenario3_def by code_simp

lemma init_triangle: "init 3 [(0, 1, 1), (1, 2, 2), (0, 2, 3)] = Inr triangle"
  unfolding triangle_def by code_simp

lemma init_empty_graph: "init 0 [] = Inr empty_graph"
  unfolding empty_graph_def by code_simp

lemma kruskal_scenario4:
  "kruskal_mst scenario4 0 1 =
     Some (Inr (([(2, 3, 1), (1, 2, 3), (0, 1, 5)], None),
                scenario4\<lparr>runtime := 1000, edge_comparisons := 12, iterations := 4\<rparr>))"
  unfolding scenario4_def by code_simp

lemma prim_scenario4:
  "prim_mst scenario4 0 1 =
     Inr (([(0, 1, 5), (1, 2, 3), (2, 3, 1)], None),
          scenario4\<lparr>runtime := 1000, edge_comparisons := 9, iterations := 5\<rparr>)"
  unfolding scenario4_def by code_simp

lemma kruskal_scenario3:
  "kruskal_mst scenario3 0 1 =
     Some (Inr (([(0, 1, 2)], None),
                scenario3\<lparr>runtime := 1000, edge_comparisons := 1, iterations := 1\<rparr>))"
  unfolding scenario3_def by code_simp

lemma prim_scenario3:
  "prim_mst scenario3 0 1 =
     Inr (([(0, 1, 2)], Some Unconnected),
          scenario3\<lparr>runtime := 1000, edge_comparisons := 3, iterations := 2\<rparr>)"
  unfolding scenario3_def by code_simp

section \<open>The empty graph\<close>

text \<open>
  C5. On a graph without nodes both algorithms return the empty edge list with the
  \<open>EmptyGraph\<close> condition, and the recorded runtime is not negative; the clock
  \<open>time.perf_counter()\<close> is monotonic, so its second reading is not below the first.
\<close>

theorem empty_graph_result:
  assumes "num_nodes s = 0" and "t0 \<le> t1"
  shows "(\<exists>s'. kruskal_mst s t0 t1 = Some (Inr (([], Some EmptyGraph), s')) \<and> 0 \<le> runtime s')
       \<and> (\<exists>s'. prim_mst s t0 t1 = Inr (([], Some EmptyGraph), s') \<and> 0 \<le> runtime s')"
  using assms by (simp add: kruskal_mst_def prim_mst_def reset_metrics_def)

theorem empty_graph_result_witness:
  "num_nodes empty_graph = 0 \<and> (0::real) \<le> 1
   \<and> (\<exists>s'. kruskal_mst empty_graph 0 1 = Some (Inr (([], Some EmptyGraph), s')) \<and> 0 \<le> runtime s')
   \<and> (\<exists>s'. prim_mst empty_graph 0 1 = Inr (([], Some EmptyGraph), s') \<and> 0 \<le> runtime s')"
proof -
  have h: "num_nodes empty_graph = 0" by (simp add: empty_graph_def)
  show ?thesis using empty_graph_result[OF h, of 0 1] h by simp
qed

section \<open>The comparison count of the sorting phase\<close>

lemma bit_length_floorlog: "bit_length n = floorlog 2 n"
proof (induction n rule: bit_length.induct)
  case (1 n)
  show ?case
  proof (cases "n = 0")
    case True
    then show ?thesis by (simp add: bit_length.simps floorlog_def)
  next
    case False
    then show ?thesis using 1
      by (subst bit_length.simps, subst compute_floorlog) simp
  qed
qed

lemma bit_length_floor_log:
  assumes "0 < n"
  shows "int (bit_length n) - 1 = \<lfloor>log 2 (real n)\<rfloor>"
proof -
  have "0 \<le> \<lfloor>log 2 (real n)\<rfloor>" using assms by simp
  then show ?thesis using assms by (simp add: bit_length_floorlog floorlog_def)
qed

text \<open>
  C8, as stated: after the sorting phase the counter has grown by \<open>E * log2(E)\<close>.
  On the triangle (\<open>E = 3\<close>) it has grown by 3, which is not \<open>3 * log2(3)\<close>.
\<close>

theorem sort_phase_comparisons_counterexample:
  "real_of_int (edge_comparisons (snd (kruskal_sort_phase triangle)) - edge_comparisons triangle)
     \<noteq> real (length (edges_list triangle)) * log 2 (real (length (edges_list triangle)))"
proof -
  have c: "edge_comparisons (snd (kruskal_sort_phase triangle)) - edge_comparisons triangle = 3"
    unfolding triangle_def by code_simp
  have n: "length (edges_list triangle) = 3"
    by (simp add: triangle_def)
  have "1 < log 2 (3::real)"
    by simp
  then have "log 2 (3::real) \<noteq> 1"
    by linarith
  then show ?thesis unfolding c n by simp
qed

text \<open>
  C8, amended: the sorting phase adds \<open>E * (E.bit_length() - 1)\<close> to the counter, which is
  \<open>E\<close> times the floor of \<open>log2(E)\<close> for \<open>E > 0\<close> and 0 for \<open>E = 0\<close>.
\<close>

theorem sort_phase_comparisons:
  "edge_comparisons (snd (kruskal_sort_phase s)) =
     edge_comparisons s
     + int (length (edges_list s))
       * (if edges_list s = [] then 0 else \<lfloor>log 2 (real (length (edges_list s)))\<rfloor>)"
  using bit_length_floor_log[of "length (edges_list s)"]
  by (simp add: kruskal_sort_phase_def Let_def)

theorem sort_phase_comparisons_witness:
  "edge_comparisons (snd (kruskal_sort_phase triangle)) = 0 + 3 * \<lfloor>log 2 (real 3)\<rfloor>"
  using sort_phase_comparisons[of triangle] by (simp add: triangle_def)

section \<open>What the loops leave unchanged\<close>

definition same_graph :: "engine \<Rightarrow> engine \<Rightarrow> bool" where
  "same_graph s s' \<longleftrightarrow>
     num_nodes s' = num_nodes s \<and> edges_list s' = edges_list s \<and> adj_list s' = adj_list s"

lemma same_graph_refl [simp]: "same_graph s s"
  by (simp add: same_graph_def)

lemma same_graph_trans: "same_graph a b \<Longrightarrow> same_graph b c \<Longrightarrow> same_graph a c"
  by (simp add: same_graph_def)

lemma same_graph_reset: "same_graph s s' \<Longrightarrow> reset_metrics s' = reset_metrics s"
  by (simp add: same_graph_def reset_metrics_def)

lemma kruskal_body_same_graph:
  assumes "kruskal_body e (s, p, r, m) = Some (Inr (s', p', r', m'))"
  shows "same_graph s s'"
  using assms
  by (cases e) (auto simp: same_graph_def Let_def split: option.splits sum.splits if_splits)

lemma kruskal_loop_same_graph:
  "kruskal_loop es (s, p, r, m) = Some (Inr (s', p', r', m')) \<Longrightarrow> same_graph s s'"
proof (induction es arbitrary: s p r m)
  case Nil
  then show ?case by simp
next
  case (Cons e es)
  then obtain s1 p1 r1 m1 where b: "kruskal_body e (s, p, r, m) = Some (Inr (s1, p1, r1, m1))"
    and l: "kruskal_loop es (s1, p1, r1, m1) = Some (Inr (s', p', r', m'))"
    by (auto split: option.splits sum.splits)
  show ?case
    using same_graph_trans[OF kruskal_body_same_graph[OF b] Cons.IH[OF l]] .
qed

lemma relax_same_graph: "relax u nbrs (s, l) = (s', l') \<Longrightarrow> same_graph s s'"
  by (induction u nbrs "(s, l)" arbitrary: s l rule: relax.induct)
     (auto simp: same_graph_def split: if_splits)

text \<open>The body of Prim's loop, by cases on the entry that is popped.\<close>

definition tick :: "engine \<Rightarrow> engine" where
  "tick s = s\<lparr>iterations := iterations s + 1, edge_comparisons := edge_comparisons s + 1\<rparr>"

definition visit :: "prim_locals \<Rightarrow> entry \<Rightarrow> entry list \<Rightarrow> prim_locals" where
  "visit l item h =
     l\<lparr>visited := insert (fst (snd item)) (visited l), heap := h,
       in_heap := (in_heap l)(fst (snd item) := None),
       mst_edges := (case snd (snd item) of
                       None \<Rightarrow> mst_edges l
                     | Some p \<Rightarrow> mst_edges l @ [(p, fst (snd item), fst item)])\<rparr>"

lemma prim_body_eq:
  "prim_body s l =
     (let item = fst (heappop (heap l)); h = snd (heappop (heap l)); u = fst (snd item) in
      if u \<in> visited l then Inr (tick s, l\<lparr>heap := h\<rparr>)
      else if in_heap l u = None then Inl KeyError
      else if length (adj_list s) \<le> u then Inl IndexError
      else Inr (relax u (adj_list s ! u) (tick s, visit l item h)))"
  by (auto simp: prim_body_def Let_def tick_def visit_def split: prod.splits option.splits)

lemma same_graph_tick [simp]: "same_graph s (tick s)"
  by (simp add: same_graph_def tick_def)

lemma prim_body_same_graph:
  assumes "prim_body s l = Inr (s', l')"
  shows "same_graph s s'"
proof -
  define item where "item = fst (heappop (heap l))"
  define h where "h = snd (heappop (heap l))"
  define u where "u = fst (snd item)"
  show ?thesis
  proof (cases "u \<in> visited l")
    case True
    then have "s' = tick s"
      using assms by (simp add: prim_body_eq Let_def item_def u_def)
    then show ?thesis by simp
  next
    case False
    then have "relax u (adj_list s ! u) (tick s, visit l item h) = (s', l')"
      using assms by (simp add: prim_body_eq Let_def item_def u_def h_def split: if_splits)
    then show ?thesis
      using relax_same_graph same_graph_trans same_graph_tick by blast
  qed
qed

lemma prim_loop_same_graph:
  "prim_loop s l = Inr (s', l') \<Longrightarrow> same_graph s s'"
proof (induction s l rule: prim_loop.induct)
  case (1 s l)
  show ?case
  proof (cases "heap l = []")
    case True
    then show ?thesis using "1.prems" by (simp add: prim_loop.simps)
  next
    case False
    then obtain s1 l1 where b: "prim_body s l = Inr (s1, l1)"
      and r: "prim_loop s1 l1 = Inr (s', l')"
      using "1.prems" by (subst (asm) prim_loop.simps) (auto split: sum.splits)
    show ?thesis
      using same_graph_trans[OF prim_body_same_graph[OF b] "1.IH"[OF False b refl r]] .
  qed
qed

lemma kruskal_mst_same_graph:
  assumes "kruskal_mst s t0 t1 = Some (Inr (r, s'))"
  shows "same_graph s s'"
proof (cases "num_nodes s = 0")
  case True
  then show ?thesis using assms
    by (auto simp: kruskal_mst_def reset_metrics_def same_graph_def)
next
  case False
  then obtain s2 p2 r2 m2 where
    l: "kruskal_loop (fst (kruskal_sort_phase (reset_metrics s)))
          (snd (kruskal_sort_phase (reset_metrics s)),
           [0..<num_nodes s], replicate (num_nodes s) 0, []) = Some (Inr (s2, p2, r2, m2))"
    and s': "s' = s2\<lparr>runtime := (t1 - t0) * 1000\<rparr>"
    using assms
    by (auto simp: kruskal_mst_def Let_def reset_metrics_def kruskal_sort_phase_def
        split: option.splits sum.splits prod.splits)
  have "same_graph s (snd (kruskal_sort_phase (reset_metrics s)))"
    by (simp add: same_graph_def kruskal_sort_phase_def reset_metrics_def Let_def)
  then have "same_graph s s2"
    using kruskal_loop_same_graph[OF l] same_graph_trans by blast
  then show ?thesis by (simp add: s' same_graph_def)
qed

lemma prim_mst_same_graph:
  assumes "prim_mst s t0 t1 = Inr (r, s')"
  shows "same_graph s s'"
proof (cases "num_nodes s = 0")
  case True
  then show ?thesis using assms
    by (auto simp: prim_mst_def reset_metrics_def same_graph_def)
next
  case False
  then obtain s1 l where
    l: "prim_loop (reset_metrics s) \<lparr>visited = {}, heap = [(0, 0, None)], in_heap = [0 \<mapsto> 0],
                           mst_edges = []\<rparr> = Inr (s1, l)"
    and s': "s' = s1\<lparr>runtime := (t1 - t0) * 1000\<rparr>"
    using assms
    by (auto simp: prim_mst_def Let_def reset_metrics_def split: sum.splits prod.splits if_splits)
  have "same_graph s (reset_metrics s)"
    by (simp add: same_graph_def reset_metrics_def)
  then have "same_graph s s1"
    using prim_loop_same_graph[OF l] same_graph_trans by blast
  then show ?thesis by (simp add: s' same_graph_def)
qed

lemma kruskal_mst_runtime_only:
  "same_graph s s' \<Longrightarrow> kruskal_mst s' t2 t3 =
     map_option (map_sum id (\<lambda>(r, x). (r, x\<lparr>runtime := (t3 - t2) * 1000\<rparr>))) (kruskal_mst s t0 t1)"
  by (auto simp: kruskal_mst_def Let_def same_graph_reset[of s s']
      split: option.splits sum.splits prod.splits)

lemma prim_mst_runtime_only:
  "same_graph s s' \<Longrightarrow> prim_mst s' t2 t3 =
     map_sum id (\<lambda>(r, x). (r, x\<lparr>runtime := (t3 - t2) * 1000\<rparr>)) (prim_mst s t0 t1)"
  by (auto simp: prim_mst_def Let_def same_graph_reset[of s s']
      split: option.splits sum.splits prod.splits)

text \<open>
  A call that returns leaves an engine on which a second call returns the same result
  with the same \<open>iterations\<close> and \<open>edge_comparisons\<close>.
\<close>

lemma second_call_same:
  "(kruskal_mst s t0 t1 = Some (Inr (r, s1)) \<longrightarrow>
      (\<exists>s2. kruskal_mst s1 t2 t3 = Some (Inr (r, s2))
         \<and> iterations s2 = iterations s1 \<and> edge_comparisons s2 = edge_comparisons s1))
   \<and> (prim_mst s t0 t1 = Inr (r', s1') \<longrightarrow>
      (\<exists>s2. prim_mst s1' t2 t3 = Inr (r', s2)
         \<and> iterations s2 = iterations s1' \<and> edge_comparisons s2 = edge_comparisons s1'))"
proof (intro conjI impI)
  assume a: "kruskal_mst s t0 t1 = Some (Inr (r, s1))"
  show "\<exists>s2. kruskal_mst s1 t2 t3 = Some (Inr (r, s2))
         \<and> iterations s2 = iterations s1 \<and> edge_comparisons s2 = edge_comparisons s1"
    using kruskal_mst_runtime_only[OF kruskal_mst_same_graph[OF a], of t2 t3 t0 t1]
    by (simp add: a)
next
  assume a: "prim_mst s t0 t1 = Inr (r', s1')"
  show "\<exists>s2. prim_mst s1' t2 t3 = Inr (r', s2)
         \<and> iterations s2 = iterations s1' \<and> edge_comparisons s2 = edge_comparisons s1'"
    using prim_mst_runtime_only[OF prim_mst_same_graph[OF a], of t2 t3 t0 t1]
    by (simp add: a)
qed

section \<open>The order of Kruskal's result\<close>

lemma kruskal_body_mst:
  assumes "kruskal_body e (s, p, r, m) = Some (Inr (s', p', r', m'))"
  shows "m' = m \<or> m' = m @ [e]"
  using assms
  by (cases e) (auto simp: Let_def split: option.splits sum.splits if_splits)

lemma kruskal_loop_subseq:
  "kruskal_loop es (s, p, r, m) = Some (Inr (s', p', r', m'))
    \<Longrightarrow> \<exists>xs. m' = m @ xs \<and> subseq xs es"
proof (induction es arbitrary: s p r m)
  case Nil
  then show ?case by simp
next
  case (Cons e es)
  then obtain s1 p1 r1 m1 where b: "kruskal_body e (s, p, r, m) = Some (Inr (s1, p1, r1, m1))"
    and l: "kruskal_loop es (s1, p1, r1, m1) = Some (Inr (s', p', r', m'))"
    by (auto split: option.splits sum.splits)
  from Cons.IH[OF l] obtain xs where xs: "m' = m1 @ xs" "subseq xs es"
    by blast
  from kruskal_body_mst[OF b] show ?case
  proof
    assume "m1 = m"
    then show ?thesis using xs by (auto intro: subseq_Cons')
  next
    assume "m1 = m @ [e]"
    then have "m' = m @ (e # xs)" "subseq (e # xs) (e # es)"
      using xs by simp_all
    then show ?thesis by blast
  qed
qed

lemma kruskal_mst_subseq:
  assumes "kruskal_mst s t0 t1 = Some (Inr ((mst, err), s'))"
  shows "subseq mst (sort_key weight_of (edges_list s))"
proof (cases "num_nodes s = 0")
  case True
  then show ?thesis using assms
    by (auto simp: kruskal_mst_def reset_metrics_def)
next
  case False
  then obtain s1 s2 p2 r2 where
    "kruskal_loop (sort_key weight_of (edges_list s))
          (s1, [0..<num_nodes s], replicate (num_nodes s) 0, []) = Some (Inr (s2, p2, r2, mst))"
    using assms
    by (auto simp: kruskal_mst_def Let_def reset_metrics_def kruskal_sort_phase_def
        split: option.splits sum.splits prod.splits)
  from kruskal_loop_subseq[OF this] show ?thesis by simp
qed

lemma subseq_set_mono: "subseq xs ys \<Longrightarrow> set xs \<subseteq> set ys"
  by (induction rule: list_emb.induct) auto

lemma subseq_sorted_map:
  "subseq xs ys \<Longrightarrow> sorted (map f ys) \<Longrightarrow> sorted (map f xs)"
proof (induction rule: list_emb.induct)
  case (list_emb_Cons xs ys y)
  then show ?case by simp
next
  case (list_emb_Cons2 x y xs ys)
  then show ?case using subseq_set_mono[of xs ys] by auto
qed simp

text \<open>
  What \<open>kruskal_mst\<close> returns is a subsequence of the stably sorted edge list.
\<close>

lemma kruskal_order_returned:
  assumes "kruskal_mst s t0 t1 = Some (Inr ((mst, err), s'))"
  shows "sorted (map weight_of mst)
       \<and> subseq mst (sort_key weight_of (edges_list s))
       \<and> (\<forall>k. subseq (filter (\<lambda>e. weight_of e = k) mst)
                      (filter (\<lambda>e. weight_of e = k) (edges_list s)))"
proof -
  have sub: "subseq mst (sort_key weight_of (edges_list s))"
    using kruskal_mst_subseq[OF assms] .
  have "sorted (map weight_of (sort_key weight_of (edges_list s)))"
    by simp
  then have srt: "sorted (map weight_of mst)"
    using subseq_sorted_map[OF sub] by blast
  have "subseq (filter (\<lambda>e. weight_of e = k) mst)
               (filter (\<lambda>e. weight_of e = k) (edges_list s))" for k
    using subseq_filter[OF sub, of "\<lambda>e. weight_of e = k"]
    by (simp add: sort_key_stable)
  with sub srt show ?thesis by blast
qed

section \<open>The animation trace\<close>

text \<open>The pairs of the \<open>Edge\<close> events of a trace, in order, and its \<open>Final\<close> events.\<close>

fun edge_events :: "event list \<Rightarrow> (nat \<times> nat) list" where
  "edge_events [] = []"
| "edge_events (Edge u v # tr) = (u, v) # edge_events tr"
| "edge_events (_ # tr) = edge_events tr"

fun final_events :: "event list \<Rightarrow> (edge list \<times> condition option) list" where
  "final_events [] = []"
| "final_events (Final es c # tr) = (es, c) # final_events tr"
| "final_events (_ # tr) = final_events tr"

definition endpoints :: "edge \<Rightarrow> nat \<times> nat" where
  "endpoints e = (fst e, fst (snd e))"

lemma edge_events_append [simp]: "edge_events (xs @ ys) = edge_events xs @ edge_events ys"
  by (induction xs rule: edge_events.induct) auto

lemma final_events_append [simp]: "final_events (xs @ ys) = final_events xs @ final_events ys"
  by (induction xs rule: final_events.induct) auto

lemma kruskal_steps_edges: "edge_events (kruskal_steps es vs) = map endpoints es"
  by (induction es vs rule: kruskal_steps.induct) (auto simp: endpoints_def Let_def)

lemma kruskal_steps_final: "final_events (kruskal_steps es vs) = []"
  by (induction es vs rule: kruskal_steps.induct) (auto simp: Let_def)

lemma prim_steps_edges: "edge_events (prim_steps es vs) = map endpoints es"
  by (induction es vs rule: prim_steps.induct) (auto simp: endpoints_def)

lemma prim_steps_final: "final_events (prim_steps es vs) = []"
  by (induction es vs rule: prim_steps.induct) auto

text \<open>
  C4. When the algorithm call returns without a condition, the trace ends in its only
  \<open>Final\<close> event, which carries the returned edge list, and the \<open>Edge\<close> events are, one
  for one and in order, the endpoint pairs of the returned edges. When the call returns
  a condition, the trace is the single event \<open>Final\<close> with the empty list and that
  condition.
\<close>

theorem trace_replay:
  "(kruskal_mst s t0 t1 = Some (Inr ((mst, err), s')) \<longrightarrow>
      (\<exists>tr. kruskal_mst_with_animation s t0 t1 = Some (Inr (tr, s'))
         \<and> (err = None \<longrightarrow> tr \<noteq> [] \<and> last tr = Final mst None
                \<and> final_events tr = [(mst, None)] \<and> edge_events tr = map endpoints mst)
         \<and> (err \<noteq> None \<longrightarrow> tr = [Final [] err])))
   \<and> (prim_mst s t0 t1 = Inr ((mst', err'), s'') \<longrightarrow>
      (\<exists>tr. prim_mst_with_animation s t0 t1 = Inr (tr, s'')
         \<and> (err' = None \<longrightarrow> tr \<noteq> [] \<and> last tr = Final mst' None
                \<and> final_events tr = [(mst', None)] \<and> edge_events tr = map endpoints mst')
         \<and> (err' \<noteq> None \<longrightarrow> tr = [Final [] err'])))"
  by (auto simp: kruskal_mst_with_animation_def prim_mst_with_animation_def
      kruskal_steps_edges kruskal_steps_final prim_steps_edges prim_steps_final)

theorem trace_replay_witness:
  "kruskal_mst scenario4 0 1 =
     Some (Inr (([(2, 3, 1), (1, 2, 3), (0, 1, 5)], None),
                scenario4\<lparr>runtime := 1000, edge_comparisons := 12, iterations := 4\<rparr>))
   \<and> (\<exists>tr. kruskal_mst_with_animation scenario4 0 1 =
              Some (Inr (tr, scenario4\<lparr>runtime := 1000, edge_comparisons := 12, iterations := 4\<rparr>))
         \<and> last tr = Final [(2, 3, 1), (1, 2, 3), (0, 1, 5)] None
         \<and> edge_events tr = [(2, 3), (1, 2), (0, 1)])
   \<and> prim_mst scenario3 0 1 =
     Inr (([(0, 1, 2)], Some Unconnected),
          scenario3\<lparr>runtime := 1000, edge_comparisons := 3, iterations := 2\<rparr>)
   \<and> prim_mst_with_animation scenario3 0 1 =
       Inr ([Final [] (Some Unconnected)],
            scenario3\<lparr>runtime := 1000, edge_comparisons := 3, iterations := 2\<rparr>)"
proof -
  let ?s4 = "scenario4\<lparr>runtime := 1000, edge_comparisons := 12, iterations := 4\<rparr>"
  let ?s3 = "scenario3\<lparr>runtime := 1000, edge_comparisons := 3, iterations := 2\<rparr>"
  have k: "\<exists>tr. kruskal_mst_with_animation scenario4 0 1 = Some (Inr (tr, ?s4))
         \<and> last tr = Final [(2, 3, 1), (1, 2, 3), (0, 1, 5)] None
         \<and> edge_events tr = [(2, 3), (1, 2), (0, 1)]"
    using trace_replay[of scenario4 0 1 "[(2, 3, 1), (1, 2, 3), (0, 1, 5)]" None ?s4
        "[]" None scenario4] kruskal_scenario4
    by (auto simp: endpoints_def)
  have p: "prim_mst_with_animation scenario3 0 1 = Inr ([Final [] (Some Unconnected)], ?s3)"
    using trace_replay[of scenario3 0 1 "[]" None scenario3
        "[(0, 1, 2)]" "Some Unconnected" ?s3] prim_scenario3
    by auto
  show ?thesis using k p kruskal_scenario4 prim_scenario3 by blast
qed

section \<open>Undirected graphs: connection, cycles, components\<close>

text \<open>
  The graph of an edge list is undirected: an edge \<open>(u, v, w)\<close> links \<open>u\<close> and \<open>v\<close> both
  ways. Two nodes are connected when a path of links leads from one to the other.
\<close>

definition links :: "edge set \<Rightarrow> (nat \<times> nat) set" where
  "links E = {(u, v). \<exists>w. (u, v, w) \<in> E \<or> (v, u, w) \<in> E}"

definition conn :: "edge set \<Rightarrow> (nat \<times> nat) set" where
  "conn E = (links E)\<^sup>*"

text \<open>An edge set connects the nodes \<open>0 .. n-1\<close> when any two of them are connected.\<close>

definition connects :: "nat \<Rightarrow> edge set \<Rightarrow> bool" where
  "connects n E \<longleftrightarrow> (\<forall>u<n. \<forall>v<n. (u, v) \<in> conn E)"

text \<open>
  An edge set is acyclic when every edge is a bridge: without the edge, its endpoints
  are not connected. (An edge on a cycle is bypassed by the rest of the cycle; a loop
  and a parallel edge are cycles too.)
\<close>

definition acyclic_edges :: "edge set \<Rightarrow> bool" where
  "acyclic_edges E \<longleftrightarrow> (\<forall>e\<in>E. endpoints e \<notin> conn (E - {e}))"

text \<open>The connected components of the nodes \<open>0 .. n-1\<close>, and the component of a node.\<close>

definition components :: "nat \<Rightarrow> edge set \<Rightarrow> nat set set" where
  "components n E = {..<n} // conn E"

definition component_of :: "nat \<Rightarrow> edge set \<Rightarrow> nat \<Rightarrow> nat set" where
  "component_of n E u = {v. v < n \<and> (u, v) \<in> conn E}"

text \<open>The edges of a list in both directions, and the edge lists that \<open>__init__\<close> accepts.\<close>

definition undirected :: "edge set \<Rightarrow> edge set" where
  "undirected E = E \<union> (\<lambda>(u, v, w). (v, u, w)) ` E"

definition wf_edges :: "nat \<Rightarrow> edge list \<Rightarrow> bool" where
  "wf_edges n es \<longleftrightarrow> (\<forall>(u, v, w)\<in>set es. u < n \<and> v < n)"

definition total_weight :: "edge list \<Rightarrow> int" where
  "total_weight es = sum_list (map weight_of es)"

subsection \<open>Connection is an equivalence\<close>

lemma links_sym: "(u, v) \<in> links E \<Longrightarrow> (v, u) \<in> links E"
  by (auto simp: links_def)

lemma links_mono: "E \<subseteq> F \<Longrightarrow> links E \<subseteq> links F"
  by (auto simp: links_def)

lemma links_insert: "links (insert (u, v, w) E) = insert (u, v) (insert (v, u) (links E))"
  by (auto simp: links_def)

lemma links_undirected [simp]: "links (undirected E) = links E"
  by (auto simp: links_def undirected_def)

lemma conn_undirected [simp]: "conn (undirected E) = conn E"
  by (simp add: conn_def)

lemma conn_refl [simp]: "(u, u) \<in> conn E"
  by (simp add: conn_def)

lemma conn_trans: "(u, v) \<in> conn E \<Longrightarrow> (v, x) \<in> conn E \<Longrightarrow> (u, x) \<in> conn E"
  by (simp add: conn_def)

lemma conn_sym: "(u, v) \<in> conn E \<Longrightarrow> (v, u) \<in> conn E"
  unfolding conn_def
proof (induction rule: rtrancl_induct)
  case base
  then show ?case by simp
next
  case (step y z)
  then have "(z, y) \<in> links E" by (simp add: links_sym)
  then show ?case using step.IH by (meson converse_rtrancl_into_rtrancl)
qed

lemma conn_mono: "E \<subseteq> F \<Longrightarrow> conn E \<subseteq> conn F"
  unfolding conn_def by (intro rtrancl_mono links_mono)

lemma conn_edge: "(u, v, w) \<in> E \<Longrightarrow> (u, v) \<in> conn E"
  unfolding conn_def links_def by auto

lemma conn_edge': "(u, v, w) \<in> E \<Longrightarrow> (v, u) \<in> conn E"
  unfolding conn_def links_def by auto

lemma conn_link: "(u, v) \<in> links E \<Longrightarrow> (u, v) \<in> conn E"
  unfolding conn_def by auto

lemma conn_step: "(u, v) \<in> conn E \<Longrightarrow> (v, x) \<in> links E \<Longrightarrow> (u, x) \<in> conn E"
  unfolding conn_def by auto

text \<open>A path in a graph with one more edge either avoids the edge or passes through it.\<close>

lemma conn_insert_cases:
  assumes "(a, b) \<in> conn (insert (u, v, w) E)"
  shows "(a, b) \<in> conn E
       \<or> ((a, u) \<in> conn E \<and> (v, b) \<in> conn E)
       \<or> ((a, v) \<in> conn E \<and> (u, b) \<in> conn E)"
  using assms unfolding conn_def[of "insert (u, v, w) E"]
proof (induction rule: rtrancl_induct)
  case base
  then show ?case by simp
next
  case (step y z)
  from step.hyps(2) consider "(y, z) \<in> links E" | "y = u" "z = v" | "y = v" "z = u"
    by (auto simp: links_insert)
  then show ?case
  proof cases
    case 1
    then show ?thesis using step.IH by (meson conn_step)
  next
    case 2
    then show ?thesis using step.IH by (meson conn_refl conn_trans conn_sym)
  next
    case 3
    then show ?thesis using step.IH by (meson conn_refl conn_trans conn_sym)
  qed
qed

lemma conn_insert_iff:
  "(a, b) \<in> conn (insert (u, v, w) E) \<longleftrightarrow>
     (a, b) \<in> conn E
     \<or> ((a, u) \<in> conn E \<and> (v, b) \<in> conn E)
     \<or> ((a, v) \<in> conn E \<and> (u, b) \<in> conn E)"
proof
  assume "(a, b) \<in> conn (insert (u, v, w) E)"
  then show "(a, b) \<in> conn E
     \<or> ((a, u) \<in> conn E \<and> (v, b) \<in> conn E)
     \<or> ((a, v) \<in> conn E \<and> (u, b) \<in> conn E)"
    by (rule conn_insert_cases)
next
  let ?F = "insert (u, v, w) E"
  have m: "conn E \<subseteq> conn ?F" by (rule conn_mono) auto
  have e: "(u, v) \<in> conn ?F" "(v, u) \<in> conn ?F"
    by (auto intro: conn_edge conn_edge')
  assume "(a, b) \<in> conn E
     \<or> ((a, u) \<in> conn E \<and> (v, b) \<in> conn E)
     \<or> ((a, v) \<in> conn E \<and> (u, b) \<in> conn E)"
  then show "(a, b) \<in> conn ?F"
    using m e by (meson conn_trans subsetD)
qed

lemma conn_insert_connected:
  assumes "(u, v) \<in> conn E"
  shows "conn (insert (u, v, w) E) = conn E"
proof -
  have "(a, b) \<in> conn (insert (u, v, w) E) \<longleftrightarrow> (a, b) \<in> conn E" for a b
    unfolding conn_insert_iff using assms by (meson conn_trans conn_sym)
  then show ?thesis by auto
qed

text \<open>A node that no edge touches is connected to itself only.\<close>

lemma conn_untouched:
  assumes "\<forall>(a, b, w)\<in>E. a \<noteq> x \<and> b \<noteq> x" and "(x, v) \<in> conn E"
  shows "v = x"
  using assms(2) unfolding conn_def
proof (induction rule: rtrancl_induct)
  case base
  then show ?case by simp
next
  case (step y z)
  then show ?case using assms(1) by (auto simp: links_def)
qed

text \<open>Connection stays inside a set of nodes that no link leaves.\<close>

lemma conn_closed:
  assumes "\<And>a b. a \<in> S \<Longrightarrow> (a, b) \<in> links E \<Longrightarrow> b \<in> S" and "u \<in> S" and "(u, v) \<in> conn E"
  shows "v \<in> S"
  using assms(3,2) unfolding conn_def
  by (induction rule: rtrancl_induct) (auto intro: assms(1))

subsection \<open>Adding an edge between two components keeps the set acyclic\<close>

lemma acyclic_edges_empty [simp]: "acyclic_edges {}"
  by (simp add: acyclic_edges_def)

lemma acyclic_edges_insert:
  assumes "acyclic_edges E" and "(u, v) \<notin> conn E"
  shows "acyclic_edges (insert (u, v, w) E)"
  unfolding acyclic_edges_def
proof
  fix e assume e: "e \<in> insert (u, v, w) E"
  have notin: "(u, v, w) \<notin> E"
    using assms(2) conn_edge by blast
  show "endpoints e \<notin> conn (insert (u, v, w) E - {e})"
  proof (cases "e = (u, v, w)")
    case True
    then have "insert (u, v, w) E - {e} = E" using notin by auto
    then show ?thesis using assms(2) True by (simp add: endpoints_def)
  next
    case False
    then have eE: "e \<in> E" using e by simp
    obtain a b x where eq: "e = (a, b, x)" by (cases e)
    have ins: "insert (u, v, w) E - {e} = insert (u, v, w) (E - {e})"
      using False by auto
    have nab: "(a, b) \<notin> conn (E - {e})"
      using assms(1) eE by (auto simp: acyclic_edges_def eq endpoints_def)
    have sub: "conn (E - {e}) \<subseteq> conn E"
      by (rule conn_mono) auto
    have ab: "(a, b) \<in> conn E" "(b, a) \<in> conn E"
      using eE eq by (auto intro: conn_edge conn_edge')
    show ?thesis
    proof
      assume "endpoints e \<in> conn (insert (u, v, w) E - {e})"
      then have "(a, b) \<in> conn (insert (u, v, w) (E - {e}))"
        unfolding ins by (simp add: eq endpoints_def)
      then consider "(a, b) \<in> conn (E - {e})"
        | "(a, u) \<in> conn (E - {e})" "(v, b) \<in> conn (E - {e})"
        | "(a, v) \<in> conn (E - {e})" "(u, b) \<in> conn (E - {e})"
        using conn_insert_cases by blast
      then show False
      proof cases
        case 1
        then show ?thesis using nab by simp
      next
        case 2
        then have "(u, a) \<in> conn E" "(b, v) \<in> conn E"
          using sub by (auto intro: conn_sym)
        then have "(u, v) \<in> conn E" using ab by (meson conn_trans)
        then show ?thesis using assms(2) by simp
      next
        case 3
        then have "(u, b) \<in> conn E" "(a, v) \<in> conn E"
          using sub by auto
        then have "(u, v) \<in> conn E" using ab by (meson conn_trans)
        then show ?thesis using assms(2) by simp
      qed
    qed
  qed
qed

section \<open>Union-Find: roots, path compression, linking\<close>

text \<open>\<open>root_of parent i r\<close>: following the parent links from \<open>i\<close> ends in the root \<open>r\<close>.\<close>

inductive root_of :: "nat list \<Rightarrow> nat \<Rightarrow> nat \<Rightarrow> bool" where
  root: "i < length parent \<Longrightarrow> parent ! i = i \<Longrightarrow> root_of parent i i"
| link: "i < length parent \<Longrightarrow> parent ! i \<noteq> i \<Longrightarrow> root_of parent (parent ! i) r
          \<Longrightarrow> root_of parent i r"

text \<open>A parent list is a forest when every index has a root.\<close>

definition uf_valid :: "nat list \<Rightarrow> bool" where
  "uf_valid parent \<longleftrightarrow> (\<forall>i<length parent. \<exists>r. root_of parent i r)"

lemma root_of_bounds:
  "root_of p i r \<Longrightarrow> i < length p \<and> r < length p \<and> p ! r = r"
  by (induction rule: root_of.induct) auto

lemma root_of_det: "root_of p i r \<Longrightarrow> root_of p i r' \<Longrightarrow> r = r'"
proof (induction arbitrary: r' rule: root_of.induct)
  case (root i p)
  then show ?case by (auto elim: root_of.cases)
next
  case (link i p r)
  from link.prems link.hyps(1,2) have "root_of p (p ! i) r'"
    by (auto elim: root_of.cases)
  then show ?case using link.IH by blast
qed

lemma root_of_self: "i < length p \<Longrightarrow> p ! i = i \<Longrightarrow> root_of p i r \<longleftrightarrow> r = i"
  using root_of.root root_of_det by blast

lemma root_of_idem: "root_of p i r \<Longrightarrow> root_of p r r"
  using root_of_bounds root_of.root by blast

lemma uf_valid_range: "uf_valid [0..<n]"
  unfolding uf_valid_def
proof (intro allI impI)
  fix i assume "i < length [0..<n]"
  then have "root_of [0..<n] i i" by (intro root_of.root) auto
  then show "\<exists>r. root_of [0..<n] i r" ..
qed

lemma root_of_range: "root_of [0..<n] i r \<longleftrightarrow> i < n \<and> r = i"
  using root_of_self[of i "[0..<n]" r] root_of_bounds[of "[0..<n]" i r] by auto

text \<open>Path compression: pointing \<open>i\<close> at its root changes no root.\<close>

lemma root_of_compress:
  assumes ir: "root_of p i r" and j: "root_of p j rj"
  shows "root_of (p[i := r]) j rj"
  using j ir
proof (induction rule: root_of.induct)
  case (root j p)
  show ?case
  proof (cases "j = i")
    case True
    then have "r = i" using root root_of_self by blast
    then show ?thesis using root True by (auto intro: root_of.root)
  next
    case False
    then show ?thesis using root by (auto intro: root_of.root)
  qed
next
  case (link j p rj)
  have b: "i < length p" "r < length p" "p ! r = r"
    using root_of_bounds[OF link.prems] by auto
  have IH: "root_of (p[i := r]) (p ! j) rj"
    using link.IH link.prems by blast
  show ?case
  proof (cases "j = i")
    case True
    then have "rj = r"
      using root_of.link[OF link.hyps(1,2,3)] link.prems root_of_det by blast
    moreover have "r \<noteq> i" using b link.hyps(2) True by auto
    moreover have "root_of (p[i := r]) r r"
      using b \<open>r \<noteq> i\<close> by (auto intro: root_of.root)
    ultimately show ?thesis
      using True b by (auto intro: root_of.link)
  next
    case False
    then show ?thesis using link.hyps IH by (auto intro: root_of.link)
  qed
qed

text \<open>
  \<open>find\<close> returns: on an index that has a root it gives that root, and the compressed
  list has the same length and the same roots.
\<close>

lemma find_uf_root:
  assumes "root_of p i r"
  shows "\<exists>p'. find_uf p i = Some (Inr (p', r)) \<and> length p' = length p
           \<and> (\<forall>j rj. root_of p j rj \<longrightarrow> root_of p' j rj)"
  using assms
proof (induction rule: root_of.induct)
  case (root i p)
  then show ?case by (subst find_uf.simps) simp
next
  case (link i p r)
  then obtain p1 where p1: "find_uf p (p ! i) = Some (Inr (p1, r))" "length p1 = length p"
    and keep: "\<And>j rj. root_of p j rj \<Longrightarrow> root_of p1 j rj"
    by blast
  have ir: "root_of p1 i r"
    using keep[OF root_of.link[OF link.hyps(1,2,3)]] .
  have "find_uf p i = Some (Inr (p1[i := r], r))"
    using link.hyps(1,2) p1 by (subst find_uf.simps) simp
  moreover have "root_of (p1[i := r]) j rj" if "root_of p j rj" for j rj
    using root_of_compress[OF ir keep[OF that]] .
  ultimately show ?case using p1(2) by auto
qed

lemma find_uf_valid:
  assumes "uf_valid p" and "i < length p"
  obtains p' r where "find_uf p i = Some (Inr (p', r))" "root_of p i r"
    "length p' = length p" "uf_valid p'" "\<And>j rj. root_of p' j rj \<longleftrightarrow> root_of p j rj"
proof -
  from assms obtain r where r: "root_of p i r"
    by (auto simp: uf_valid_def)
  from find_uf_root[OF r] obtain p' where p': "find_uf p i = Some (Inr (p', r))"
    "length p' = length p" and keep: "\<And>j rj. root_of p j rj \<Longrightarrow> root_of p' j rj"
    by blast
  have v: "uf_valid p'"
    unfolding uf_valid_def using assms(1) keep p'(2) by (metis uf_valid_def)
  have "root_of p' j rj \<longleftrightarrow> root_of p j rj" for j rj
  proof
    assume a: "root_of p' j rj"
    then have "j < length p" using root_of_bounds p'(2) by fastforce
    then obtain x where x: "root_of p j x" using assms(1) by (auto simp: uf_valid_def)
    then show "root_of p j rj" using keep[OF x] a root_of_det by blast
  qed (rule keep)
  with p' r v show ?thesis using that by blast
qed

text \<open>Linking the root \<open>y\<close> under the root \<open>x\<close> sends the nodes of \<open>y\<close> to \<open>x\<close>.\<close>

lemma root_of_link:
  assumes x: "x < length p" "p ! x = x" and y: "y < length p" "p ! y = y" and ne: "x \<noteq> y"
    and j: "root_of p j rj"
  shows "root_of (p[y := x]) j (if rj = y then x else rj)"
  using j x y ne
proof (induction rule: root_of.induct)
  case (root j p)
  have xr: "root_of (p[y := x]) x x"
    using root by (auto intro: root_of.root)
  show ?case
  proof (cases "j = y")
    case True
    then show ?thesis using root xr by (auto intro: root_of.link)
  next
    case False
    then show ?thesis using root by (auto intro: root_of.root)
  qed
next
  case (link j p rj)
  then have "j \<noteq> y" by auto
  then show ?case using link by (auto intro: root_of.link)
qed

lemma uf_valid_link:
  assumes "uf_valid p" "x < length p" "p ! x = x" "y < length p" "p ! y = y" "x \<noteq> y"
  shows "uf_valid (p[y := x])"
  unfolding uf_valid_def
proof (intro allI impI)
  fix i assume "i < length (p[y := x])"
  then obtain r where "root_of p i r"
    using assms(1) by (auto simp: uf_valid_def)
  from root_of_link[OF assms(2-6) this] show "\<exists>r. root_of (p[y := x]) i r" ..
qed

text \<open>\<open>union\<close> of two distinct roots links one under the other.\<close>

lemma union_uf_roots:
  assumes "x < length p" "p ! x = x" "y < length p" "p ! y = y" "x \<noteq> y"
    and "length rank = length p"
  shows "\<exists>rank'. length rank' = length rank
           \<and> (union_uf p rank x y = Some (Inr (p[y := x], rank'))
              \<or> union_uf p rank x y = Some (Inr (p[x := y], rank')))"
proof -
  have fx: "find_uf p x = Some (Inr (p, x))" and fy: "find_uf p y = Some (Inr (p, y))"
    using assms by (subst find_uf.simps, simp)+
  show ?thesis
  proof (cases "rank ! x < rank ! y")
    case True
    then have "union_uf p rank x y = Some (Inr (p[x := y], rank))"
      using assms by (simp add: union_uf_def fx fy Let_def)
    then show ?thesis by blast
  next
    case False
    show ?thesis
    proof (cases "rank ! x = rank ! y")
      case True
      then have "union_uf p rank x y = Some (Inr (p[y := x], rank[x := rank ! x + 1]))"
        using assms by (simp add: union_uf_def fx fy Let_def)
      moreover have "length (rank[x := rank ! x + 1]) = length rank" by simp
      ultimately show ?thesis by blast
    next
      case ne: False
      then have "union_uf p rank x y = Some (Inr (p[y := x], rank))"
        using assms False by (simp add: union_uf_def fx fy Let_def)
      then show ?thesis by blast
    qed
  qed
qed

section \<open>Kruskal's loop and the graph\<close>

text \<open>
  What the loop computes, read on the graph alone: an edge is taken exactly when its
  endpoints are not yet connected by the edges taken before.
\<close>

fun greedy_forest :: "edge list \<Rightarrow> edge list \<Rightarrow> edge list" where
  "greedy_forest [] m = m"
| "greedy_forest (e # es) m =
     (if endpoints e \<in> conn (set m) then greedy_forest es m else greedy_forest es (m @ [e]))"

text \<open>
  The invariant of the loop after the edges \<open>done\<close>: the parent list is a forest of
  \<open>n\<close> indices whose trees are the components of the edges taken, which connect what the
  edges seen connect; every edge taken has lowered the number of roots by one.
\<close>

definition roots :: "nat list \<Rightarrow> nat set" where
  "roots p = {i. i < length p \<and> p ! i = i}"

definition kruskal_inv :: "nat \<Rightarrow> edge list \<Rightarrow> kruskal_state \<Rightarrow> bool" where
  "kruskal_inv n done st \<longleftrightarrow>
     (case st of (s, p, rank, m) \<Rightarrow>
        length p = n \<and> length rank = n \<and> uf_valid p
        \<and> (\<forall>i<n. \<forall>j<n. \<forall>ri rj. root_of p i ri \<longrightarrow> root_of p j rj \<longrightarrow>
              (ri = rj \<longleftrightarrow> (i, j) \<in> conn (set m)))
        \<and> conn (set m) = conn (set done)
        \<and> length m + card (roots p) = n)"

lemma conn_insert_cong:
  assumes "conn A = conn B"
  shows "conn (insert e A) = conn (insert e B)"
proof -
  obtain u v w where e: "e = (u, v, w)" by (cases e)
  have "(a, b) \<in> conn (insert e A) \<longleftrightarrow> (a, b) \<in> conn (insert e B)" for a b
    unfolding e conn_insert_iff assms ..
  then show ?thesis by auto
qed

lemma roots_same:
  assumes "uf_valid p" "length p' = length p" "\<And>j rj. root_of p' j rj \<longleftrightarrow> root_of p j rj"
  shows "roots p' = roots p"
proof -
  have "p' ! i = i \<longleftrightarrow> p ! i = i" if "i < length p" for i
  proof
    assume "p' ! i = i"
    then have "root_of p' i i" using that assms(2) by (auto intro: root_of.root)
    then have "root_of p i i" using assms(3) by simp
    then show "p ! i = i" using root_of_bounds by blast
  next
    assume "p ! i = i"
    then have "root_of p i i" using that by (auto intro: root_of.root)
    then have "root_of p' i i" using assms(3) by simp
    then show "p' ! i = i" using root_of_bounds by blast
  qed
  then show ?thesis using assms(2) by (auto simp: roots_def)
qed

lemma roots_link:
  assumes "a < length p" "b < length p" "p ! b = b" "a \<noteq> b"
  shows "roots (p[b := a]) = roots p - {b}"
  using assms by (auto simp: roots_def nth_list_update)

lemma card_roots_link:
  assumes "a < length p" "b < length p" "p ! b = b" "a \<noteq> b"
  shows "Suc (card (roots (p[b := a]))) = card (roots p)"
proof -
  have "finite (roots p)" by (simp add: roots_def)
  moreover have "b \<in> roots p" using assms by (simp add: roots_def)
  ultimately show ?thesis
    unfolding roots_link[OF assms] by (rule card_Suc_Diff1)
qed

text \<open>One turn of the loop on an edge whose endpoints are nodes.\<close>

lemma kruskal_body_step:
  assumes inv: "kruskal_inv n done (s, p, rank, m)" and u: "u < n" and v: "v < n"
  shows "\<exists>s' p' rank'.
           kruskal_body (u, v, w) (s, p, rank, m)
             = Some (Inr (s', p', rank', greedy_forest [(u, v, w)] m))
         \<and> kruskal_inv n (done @ [(u, v, w)]) (s', p', rank', greedy_forest [(u, v, w)] m)"
proof -
  from inv have len: "length p = n" "length rank = n" and val: "uf_valid p"
    and cls: "\<And>i j ri rj. i < n \<Longrightarrow> j < n \<Longrightarrow> root_of p i ri \<Longrightarrow> root_of p j rj
                \<Longrightarrow> (ri = rj \<longleftrightarrow> (i, j) \<in> conn (set m))"
    and cn: "conn (set m) = conn (set done)"
    and cnt: "length m + card (roots p) = n"
    by (auto simp: kruskal_inv_def)
  from find_uf_valid[OF val, of u] u len obtain p1 x where
    f1: "find_uf p u = Some (Inr (p1, x))" and x: "root_of p u x"
    and l1: "length p1 = length p" and v1: "uf_valid p1"
    and r1: "\<And>j rj. root_of p1 j rj \<longleftrightarrow> root_of p j rj"
    by metis
  from find_uf_valid[OF v1, of v] v len l1 obtain p2 y where
    f2: "find_uf p1 v = Some (Inr (p2, y))" and y1: "root_of p1 v y"
    and l2: "length p2 = length p1" and v2: "uf_valid p2"
    and r2: "\<And>j rj. root_of p2 j rj \<longleftrightarrow> root_of p1 j rj"
    by metis
  have y: "root_of p v y" using y1 r1 by simp
  have r12: "\<And>j rj. root_of p2 j rj \<longleftrightarrow> root_of p j rj"
    using r1 r2 by simp
  have xy: "x = y \<longleftrightarrow> (u, v) \<in> conn (set m)"
    using cls[OF u v x y] .
  have rts: "roots p2 = roots p"
    using roots_same[OF val, of p2] l1 l2 r12 by simp
  let ?e = "(u, v, w)"
  let ?s2 = "s\<lparr>iterations := iterations s + 1, edge_comparisons := edge_comparisons s + 1\<rparr>"
  show ?thesis
  proof (cases "x = y")
    case True
    have body: "kruskal_body ?e (s, p, rank, m) = Some (Inr (?s2, p2, rank, m))"
      using True by (simp add: f1 f2 Let_def)
    have g: "greedy_forest [?e] m = m"
      using True xy by (simp add: endpoints_def)
    have "conn (set m) = conn (set (done @ [?e]))"
      using conn_insert_connected[of u v "set done" w] cn xy True by simp
    then have "kruskal_inv n (done @ [?e]) (?s2, p2, rank, m)"
      using len l1 l2 v2 cls cnt rts r12 by (simp add: kruskal_inv_def)
    then show ?thesis using body g by auto
  next
    case False
    have px: "x < length p2" "p2 ! x = x" and py: "y < length p2" "p2 ! y = y"
      using root_of_bounds[OF x] root_of_bounds[OF y] l1 l2
        root_of_bounds[of p2 x x] root_of_bounds[of p2 y y]
        r12 root_of_idem[OF x] root_of_idem[OF y]
      by auto
    from union_uf_roots[OF px py False, of rank] len l1 l2
    obtain rank' a b where rk: "length rank' = n"
      and un: "union_uf p2 rank x y = Some (Inr (p2[b := a], rank'))"
      and ab: "(a = x \<and> b = y) \<or> (a = y \<and> b = x)"
      by auto
    have pa: "a < length p2" "p2 ! a = a" and pb: "b < length p2" "p2 ! b = b" and ne: "a \<noteq> b"
      using ab px py False by auto
    let ?p3 = "p2[b := a]"
    have body: "kruskal_body ?e (s, p, rank, m) = Some (Inr (?s2, ?p3, rank', m @ [?e]))"
      using False by (simp add: f1 f2 un Let_def)
    have g: "greedy_forest [?e] m = m @ [?e]"
      using False xy by (simp add: endpoints_def)
    have v3: "uf_valid ?p3"
      using uf_valid_link[OF v2 pa pb ne] .
    have r3: "root_of ?p3 j (if rj = b then a else rj)" if "root_of p j rj" for j rj
      using root_of_link[OF pa pb ne] that r12 by simp
    have cls3: "(ri = rj) \<longleftrightarrow> (i, j) \<in> conn (set (m @ [?e]))"
      if i: "i < n" and j: "j < n" and ri: "root_of ?p3 i ri" and rj: "root_of ?p3 j rj"
      for i j ri rj
    proof -
      from val i j len obtain qi qj where qi: "root_of p i qi" and qj: "root_of p j qj"
        unfolding uf_valid_def by metis
      have ri': "ri = (if qi = b then a else qi)" and rj': "rj = (if qj = b then a else qj)"
        using r3[OF qi] r3[OF qj] ri rj root_of_det by blast+
      have c1: "qi = qj \<longleftrightarrow> (i, j) \<in> conn (set m)" using cls[OF i j qi qj] .
      have c2: "qi = x \<longleftrightarrow> (i, u) \<in> conn (set m)" using cls[OF i u qi x] .
      have c3: "qi = y \<longleftrightarrow> (i, v) \<in> conn (set m)" using cls[OF i v qi y] .
      have c4: "x = qj \<longleftrightarrow> (u, j) \<in> conn (set m)" using cls[OF u j x qj] .
      have c5: "y = qj \<longleftrightarrow> (v, j) \<in> conn (set m)" using cls[OF v j y qj] .
      have "(i, j) \<in> conn (set (m @ [?e])) \<longleftrightarrow>
              qi = qj \<or> (qi = x \<and> y = qj) \<or> (qi = y \<and> x = qj)"
        using conn_insert_iff[of i j u v w "set m"] c1 c2 c3 c4 c5 by simp
      also have "\<dots> \<longleftrightarrow> ri = rj"
        using ab False ri' rj' by auto
      finally show ?thesis by simp
    qed
    have cn3: "conn (set (m @ [?e])) = conn (set (done @ [?e]))"
      using conn_insert_cong[OF cn, of ?e] by simp
    have "Suc (card (roots ?p3)) = card (roots p)"
      using card_roots_link[OF pa(1) pb ne] rts by simp
    then have cnt3: "length (m @ [?e]) + card (roots ?p3) = n"
      using cnt by simp
    have "kruskal_inv n (done @ [?e]) (?s2, ?p3, rank', m @ [?e])"
      unfolding kruskal_inv_def using len l1 l2 rk v3 cls3 cn3 cnt3 by simp
    then show ?thesis using body g by auto
  qed
qed

lemma greedy_forest_append:
  "greedy_forest (xs @ ys) m = greedy_forest ys (greedy_forest xs m)"
  by (induction xs arbitrary: m) auto

lemma kruskal_loop_inv:
  assumes "kruskal_inv n done (s, p, rank, m)" and "wf_edges n rest"
  shows "\<exists>s' p' rank'.
           kruskal_loop rest (s, p, rank, m) = Some (Inr (s', p', rank', greedy_forest rest m))
         \<and> kruskal_inv n (done @ rest) (s', p', rank', greedy_forest rest m)"
  using assms
proof (induction rest arbitrary: "done" s p rank m)
  case Nil
  then show ?case by simp
next
  case (Cons e rest)
  obtain u v w where e: "e = (u, v, w)" by (cases e)
  have uv: "u < n" "v < n" and wf: "wf_edges n rest"
    using Cons.prems(2) by (auto simp: wf_edges_def e)
  from kruskal_body_step[OF Cons.prems(1) uv, of w] obtain s1 p1 rank1 where
    b: "kruskal_body e (s, p, rank, m) = Some (Inr (s1, p1, rank1, greedy_forest [e] m))"
    and i: "kruskal_inv n (done @ [e]) (s1, p1, rank1, greedy_forest [e] m)"
    unfolding e by blast
  from Cons.IH[OF i wf] obtain s' p' rank' where
    l: "kruskal_loop rest (s1, p1, rank1, greedy_forest [e] m)
          = Some (Inr (s', p', rank', greedy_forest rest (greedy_forest [e] m)))"
    and i': "kruskal_inv n ((done @ [e]) @ rest)
               (s', p', rank', greedy_forest rest (greedy_forest [e] m))"
    by blast
  have g: "greedy_forest rest (greedy_forest [e] m) = greedy_forest (e # rest) m"
    using greedy_forest_append[of "[e]" rest m] by simp
  have "kruskal_loop (e # rest) (s, p, rank, m) = Some (Inr (s', p', rank', greedy_forest (e # rest) m))"
    using b l unfolding g by simp
  moreover have "kruskal_inv n (done @ e # rest) (s', p', rank', greedy_forest (e # rest) m)"
    using i' unfolding g by simp
  ultimately show ?case by blast
qed

lemma conn_empty: "(i, j) \<in> conn {} \<longleftrightarrow> i = j"
  by (simp add: conn_def links_def)

lemma roots_range: "roots [0..<n] = {..<n}"
  by (auto simp: roots_def)

lemma kruskal_inv_init: "kruskal_inv n [] (s, [0..<n], replicate n 0, [])"
  by (simp add: kruskal_inv_def uf_valid_range root_of_range conn_empty roots_range)

text \<open>The roots of the parent list are as many as the components of the edges taken.\<close>

lemma components_image: "components n E = (\<lambda>i. conn E `` {i}) ` {..<n}"
  by (auto simp: components_def quotient_def)

lemma conn_class_eq: "conn E `` {i} = conn E `` {j} \<longleftrightarrow> (i, j) \<in> conn E"
proof
  assume "conn E `` {i} = conn E `` {j}"
  then have "j \<in> conn E `` {i}" by auto
  then show "(i, j) \<in> conn E" by simp
next
  assume "(i, j) \<in> conn E"
  then show "conn E `` {i} = conn E `` {j}"
    by (auto intro: conn_trans conn_sym)
qed

lemma kruskal_inv_components:
  assumes "kruskal_inv n done (s, p, rank, m)"
  shows "card (components n (set done)) = card (roots p)"
proof -
  from assms have len: "length p = n" and val: "uf_valid p"
    and cls: "\<And>i j ri rj. i < n \<Longrightarrow> j < n \<Longrightarrow> root_of p i ri \<Longrightarrow> root_of p j rj
                \<Longrightarrow> (ri = rj \<longleftrightarrow> (i, j) \<in> conn (set m))"
    and cn: "conn (set m) = conn (set done)"
    by (auto simp: kruskal_inv_def)
  let ?c = "\<lambda>i. conn (set done) `` {i}"
  have rr: "root_of p r r" "r < n" if "r \<in> roots p" for r
    using that len by (auto simp: roots_def intro: root_of.root)
  have inj: "inj_on ?c (roots p)"
  proof (rule inj_onI)
    fix a b assume a: "a \<in> roots p" and b: "b \<in> roots p" and "?c a = ?c b"
    then have "(a, b) \<in> conn (set m)" using conn_class_eq cn by simp
    then show "a = b" using cls[OF rr(2)[OF a] rr(2)[OF b] rr(1)[OF a] rr(1)[OF b]] by simp
  qed
  have "?c ` {..<n} = ?c ` roots p"
  proof
    show "?c ` roots p \<subseteq> ?c ` {..<n}" using rr(2) by auto
    show "?c ` {..<n} \<subseteq> ?c ` roots p"
    proof
      fix X assume "X \<in> ?c ` {..<n}"
      then obtain i where i: "i < n" "X = ?c i" by auto
      then obtain r where r: "root_of p i r"
        using val len by (auto simp: uf_valid_def)
      have rb: "r < n" "root_of p r r" "r \<in> roots p"
        using root_of_bounds[OF r] root_of_idem[OF r] len by (auto simp: roots_def)
      have "(i, r) \<in> conn (set m)"
        using cls[OF i(1) rb(1) r rb(2)] by simp
      then have "?c i = ?c r" using conn_class_eq cn by simp
      then show "X \<in> ?c ` roots p" using i rb by blast
    qed
  qed
  then show ?thesis
    unfolding components_image using card_image[OF inj] by simp
qed

text \<open>The edges taken are distinct edges of the input and contain no cycle.\<close>

lemma greedy_forest_acyclic:
  assumes "distinct m" "acyclic_edges (set m)" "set m \<subseteq> A" "set es \<subseteq> A"
  shows "distinct (greedy_forest es m) \<and> acyclic_edges (set (greedy_forest es m))
       \<and> set (greedy_forest es m) \<subseteq> A"
  using assms
proof (induction es arbitrary: m)
  case Nil
  then show ?case by simp
next
  case (Cons e es)
  obtain u v w where e: "e = (u, v, w)" by (cases e)
  show ?case
  proof (cases "endpoints e \<in> conn (set m)")
    case True
    then show ?thesis using Cons by simp
  next
    case False
    then have nc: "(u, v) \<notin> conn (set m)" by (simp add: e endpoints_def)
    then have "e \<notin> set m" using conn_edge e by blast
    then have d: "distinct (m @ [e])" using Cons.prems(1) by simp
    have a: "acyclic_edges (set (m @ [e]))"
      using acyclic_edges_insert[OF Cons.prems(2) nc, of w] by (simp add: e)
    have "set (m @ [e]) \<subseteq> A" "set es \<subseteq> A"
      using Cons.prems(3,4) by auto
    from Cons.IH[OF d a this] show ?thesis using False by simp
  qed
qed

section \<open>The engine of a graph\<close>

lemma undirected_iff: "(u, v, w) \<in> undirected E \<longleftrightarrow> (u, v, w) \<in> E \<or> (v, u, w) \<in> E"
  unfolding undirected_def by force

lemma build_adj_wf:
  assumes "wf_edges (length adj) es"
  shows "\<exists>adj'. build_adj es adj = Inr adj' \<and> length adj' = length adj
           \<and> (\<forall>u<length adj. set (adj' ! u)
                  = set (adj ! u) \<union> {(v, w). (u, v, w) \<in> undirected (set es)})"
  using assms
proof (induction es arbitrary: adj)
  case Nil
  then show ?case by (simp add: undirected_def)
next
  case (Cons e es)
  obtain a b c where e: "e = (a, b, c)" by (cases e)
  have ab: "a < length adj" "b < length adj" and wf: "wf_edges (length adj) es"
    using Cons.prems by (auto simp: wf_edges_def e)
  define adj1 where "adj1 = adj[a := adj ! a @ [(b, c)]]"
  define adj2 where "adj2 = adj1[b := adj1 ! b @ [(a, c)]]"
  have l2: "length adj2 = length adj" by (simp add: adj2_def adj1_def)
  from Cons.IH[of adj2] wf l2 obtain adj' where
    r: "build_adj es adj2 = Inr adj'" and l: "length adj' = length adj"
    and s: "\<forall>u<length adj. set (adj' ! u)
              = set (adj2 ! u) \<union> {(v, w). (u, v, w) \<in> undirected (set es)}"
    by auto
  have b: "build_adj (e # es) adj = Inr adj'"
    using ab r by (simp add: e adj1_def adj2_def Let_def)
  have "set (adj2 ! u) \<union> {(v, w). (u, v, w) \<in> undirected (set es)}
      = set (adj ! u) \<union> {(v, w). (u, v, w) \<in> undirected (set (e # es))}"
    if u: "u < length adj" for u
  proof -
    let ?A = "if u = a then {(b, c)} else {}"
    let ?B = "if u = b then {(a, c)} else {}"
    have "set (adj1 ! u) = set (adj ! u) \<union> ?A"
      using u by (simp add: adj1_def nth_list_update)
    moreover have "set (adj2 ! u) = set (adj1 ! u) \<union> ?B"
      using u by (simp add: adj2_def adj1_def nth_list_update)
    moreover have "{(v, w). (u, v, w) \<in> undirected (set (e # es))}
        = {(v, w). (u, v, w) \<in> undirected (set es)} \<union> ?A \<union> ?B"
      unfolding e by (simp add: undirected_iff set_eq_iff) blast
    ultimately show ?thesis by (simp add: Un_ac)
  qed
  then have "\<forall>u<length adj. set (adj' ! u)
      = set (adj ! u) \<union> {(v, w). (u, v, w) \<in> undirected (set (e # es))}"
    using s by simp
  then show ?case using b l by blast
qed

lemma build_adj_Inr_wf:
  "build_adj es adj = Inr adj' \<Longrightarrow> wf_edges (length adj) es"
proof (induction es arbitrary: adj)
  case Nil
  then show ?case by (simp add: wf_edges_def)
next
  case (Cons e es)
  obtain a b c where e: "e = (a, b, c)" by (cases e)
  from Cons.prems have ab: "a < length adj" "b < length adj"
    and r: "build_adj es ((adj[a := adj ! a @ [(b, c)]])
              [b := adj[a := adj ! a @ [(b, c)]] ! b @ [(a, c)]]) = Inr adj'"
    by (auto simp: e Let_def split: if_splits)
  from Cons.IH[OF r] have "wf_edges (length adj) es" by simp
  then show ?case using ab by (simp add: wf_edges_def e)
qed

text \<open>
  \<open>__init__\<close> succeeds exactly on the edge lists whose endpoints are nodes, and then the
  adjacency list of a node holds its neighbours along the edges, in both directions.
\<close>

lemma init_Inr_iff: "(\<exists>g. init n es = Inr g) \<longleftrightarrow> wf_edges n es"
proof
  assume "\<exists>g. init n es = Inr g"
  then obtain adj where "build_adj es (replicate n []) = Inr adj"
    by (auto simp: init_def split: sum.splits)
  from build_adj_Inr_wf[OF this] show "wf_edges n es" by simp
next
  assume "wf_edges n es"
  then show "\<exists>g. init n es = Inr g"
    using build_adj_wf[of "replicate n []" es] by (auto simp: init_def)
qed

lemma init_fields:
  assumes "init n es = Inr g"
  shows "num_nodes g = n" "edges_list g = es" "length (adj_list g) = n" "wf_edges n es"
    "\<And>u. u < n \<Longrightarrow> set (adj_list g ! u) = {(v, w). (u, v, w) \<in> undirected (set es)}"
proof -
  have wf: "wf_edges n es" using assms init_Inr_iff by blast
  from build_adj_wf[of "replicate n []" es] wf obtain adj where
    b: "build_adj es (replicate n []) = Inr adj" and l: "length adj = n"
    and s: "\<forall>u<n. set (adj ! u) = {(v, w). (u, v, w) \<in> undirected (set es)}"
    by auto
  have g: "g = reset_metrics \<lparr>num_nodes = n, edges_list = es, adj_list = adj,
                              runtime = 0, edge_comparisons = 0, iterations = 0\<rparr>"
    using assms b by (simp add: init_def)
  show "num_nodes g = n" "edges_list g = es" "length (adj_list g) = n" "wf_edges n es"
    using g l wf by (simp_all add: reset_metrics_def)
  show "\<And>u. u < n \<Longrightarrow> set (adj_list g ! u) = {(v, w). (u, v, w) \<in> undirected (set es)}"
    using g s by (simp add: reset_metrics_def)
qed

section \<open>Kruskal returns the greedy forest\<close>

lemma wf_edges_sort: "wf_edges n (sort_key f es) \<longleftrightarrow> wf_edges n es"
  by (simp add: wf_edges_def)

lemma kruskal_mst_greedy:
  assumes n: "num_nodes g = n" "0 < n" and es: "edges_list g = es" "wf_edges n es"
  shows "\<exists>s'. kruskal_mst g t0 t1
               = Some (Inr ((greedy_forest (sort_key weight_of es) [], None), s'))
       \<and> length (greedy_forest (sort_key weight_of es) []) + card (components n (set es)) = n"
proof -
  let ?es = "sort_key weight_of es"
  obtain s1 where sp: "kruskal_sort_phase (reset_metrics g) = (?es, s1)" and n1: "num_nodes s1 = n"
    using n es by (simp add: kruskal_sort_phase_def reset_metrics_def Let_def)
  from kruskal_loop_inv[OF kruskal_inv_init, of n ?es s1] es(2) obtain s' p' rank' where
    l: "kruskal_loop ?es (s1, [0..<n], replicate n 0, [])
          = Some (Inr (s', p', rank', greedy_forest ?es []))"
    and i: "kruskal_inv n ([] @ ?es) (s', p', rank', greedy_forest ?es [])"
    using wf_edges_sort by blast
  have n0: "num_nodes (reset_metrics g) \<noteq> 0"
    using n by (simp add: reset_metrics_def)
  have "kruskal_mst g t0 t1
          = Some (Inr ((greedy_forest ?es [], None), s'\<lparr>runtime := (t1 - t0) * 1000\<rparr>))"
    unfolding kruskal_mst_def Let_def using n0 by (simp add: sp n1 l)
  moreover have "length (greedy_forest ?es []) + card (components n (set es)) = n"
    using kruskal_inv_components[OF i] i by (simp add: kruskal_inv_def)
  ultimately show ?thesis by blast
qed

lemma greedy_forest_sort_props:
  "distinct (greedy_forest (sort_key weight_of es) [])
   \<and> acyclic_edges (set (greedy_forest (sort_key weight_of es) []))
   \<and> set (greedy_forest (sort_key weight_of es) []) \<subseteq> set es"
  using greedy_forest_acyclic[of "[]" "set es" "sort_key weight_of es"] by simp

lemma kruskal_inv_conn:
  "kruskal_inv n done (s, p, rank, m) \<Longrightarrow> conn (set m) = conn (set done)"
  by (simp add: kruskal_inv_def)

lemma greedy_forest_conn_sort:
  assumes "wf_edges n es"
  shows "conn (set (greedy_forest (sort_key weight_of es) [])) = conn (set es)"
proof -
  let ?es = "sort_key weight_of es"
  obtain s :: engine where True by simp
  from kruskal_loop_inv[OF kruskal_inv_init, of n ?es s] assms obtain s' p' rank' where
    "kruskal_inv n ([] @ ?es) (s', p', rank', greedy_forest ?es [])"
    using wf_edges_sort by blast
  from kruskal_inv_conn[OF this] show ?thesis by simp
qed

text \<open>On a connected graph there is one component.\<close>

lemma components_connected:
  assumes "connects n E" "0 < n"
  shows "card (components n E) = 1"
proof -
  have eq: "conn E `` {i} = conn E `` {0}" if "i < n" for i
  proof -
    have "(i, 0) \<in> conn E" using assms that by (simp add: connects_def)
    then show ?thesis by (simp only: conn_class_eq)
  qed
  have "(\<lambda>i. conn E `` {i}) ` {..<n} = {conn E `` {0}}"
  proof
    show "(\<lambda>i. conn E `` {i}) ` {..<n} \<subseteq> {conn E `` {0}}"
      using eq by blast
    show "{conn E `` {0}} \<subseteq> (\<lambda>i. conn E `` {i}) ` {..<n}"
      using assms(2) by blast
  qed
  then show ?thesis by (simp add: components_image)
qed

section \<open>Prim's inner loop\<close>

text \<open>
  What the loop over the neighbours of \<open>u\<close> does to the local variables: it only pushes
  entries \<open>(w, v, u)\<close> for unvisited neighbours, it only lowers the recorded weights, and
  afterwards every unvisited neighbour has a recorded weight that is at most the weight
  of its edge to \<open>u\<close> and is the weight of an entry of the heap.
\<close>

definition relaxed :: "nat \<Rightarrow> (nat \<times> int) list \<Rightarrow> prim_locals \<Rightarrow> prim_locals \<Rightarrow> bool" where
  "relaxed u nbrs l l' \<longleftrightarrow>
     visited l' = visited l \<and> mst_edges l' = mst_edges l
     \<and> set (heap l) \<subseteq> set (heap l')
     \<and> (\<forall>x\<in>set (heap l'). x \<in> set (heap l)
           \<or> (\<exists>v w. x = (w, v, Some u) \<and> (v, w) \<in> set nbrs \<and> v \<notin> visited l))
     \<and> (\<forall>v w0. in_heap l v = Some w0 \<longrightarrow> (\<exists>w'. in_heap l' v = Some w' \<and> w' \<le> w0))
     \<and> (\<forall>v w. (v, w) \<in> set nbrs \<longrightarrow> v \<notin> visited l
           \<longrightarrow> (\<exists>w'. in_heap l' v = Some w' \<and> w' \<le> w))
     \<and> (\<forall>v w'. in_heap l' v = Some w' \<longrightarrow> in_heap l v = Some w'
           \<or> ((w', v, Some u) \<in> set (heap l') \<and> (v, w') \<in> set nbrs \<and> v \<notin> visited l))"

lemma relaxed_Nil: "relaxed u [] l l"
  by (simp add: relaxed_def)

lemma relaxed_skip:
  assumes "v \<in> visited l \<or> (\<exists>w'. in_heap l v = Some w' \<and> w' \<le> w)"
  shows "relaxed u [(v, w)] l l"
  using assms by (auto simp: relaxed_def)

lemma relaxed_push:
  assumes "v \<notin> visited l" and "\<forall>w'. in_heap l v = Some w' \<longrightarrow> w < w'"
  shows "relaxed u [(v, w)] l
           (l\<lparr>heap := heappush (heap l) (w, v, Some u), in_heap := (in_heap l)(v \<mapsto> w)\<rparr>)"
  using assms unfolding relaxed_def heappush_def
  by (auto simp: less_imp_le)

lemma relaxed_Cons:
  assumes a: "relaxed u [x] l l2" and b: "relaxed u rest l2 l'"
  shows "relaxed u (x # rest) l l'"
proof -
  have v: "visited l2 = visited l" "visited l' = visited l" "mst_edges l' = mst_edges l"
    using a b by (simp_all add: relaxed_def)
  have h1: "set (heap l) \<subseteq> set (heap l')"
    using a b unfolding relaxed_def by blast
  have h2: "x' \<in> set (heap l)
      \<or> (\<exists>v w. x' = (w, v, Some u) \<and> (v, w) \<in> set (x # rest) \<and> v \<notin> visited l)"
    if "x' \<in> set (heap l')" for x'
  proof -
    from b that consider "x' \<in> set (heap l2)"
      | v w where "x' = (w, v, Some u)" "(v, w) \<in> set rest" "v \<notin> visited l2"
      unfolding relaxed_def by blast
    then show ?thesis
    proof cases
      case 1
      then show ?thesis using a unfolding relaxed_def by fastforce
    next
      case 2
      then show ?thesis using v by auto
    qed
  qed
  have m1: "\<exists>w'. in_heap l2 v = Some w' \<and> w' \<le> w0" if "in_heap l v = Some w0" for v w0
    using a that unfolding relaxed_def by blast
  have m2: "\<exists>w'. in_heap l' v = Some w' \<and> w' \<le> w0" if "in_heap l2 v = Some w0" for v w0
    using b that unfolding relaxed_def by blast
  have h3: "\<exists>w'. in_heap l' v = Some w' \<and> w' \<le> w0" if "in_heap l v = Some w0" for v w0
    using m1[OF that] m2 by force
  have h4: "\<exists>w'. in_heap l' v = Some w' \<and> w' \<le> w"
    if "(v, w) \<in> set (x # rest)" "v \<notin> visited l" for v w
  proof (cases "(v, w) = x")
    case True
    then have "\<exists>w'. in_heap l2 v = Some w' \<and> w' \<le> w"
      using a that(2) unfolding relaxed_def by auto
    then show ?thesis using m2 by force
  next
    case False
    then have "(v, w) \<in> set rest" using that(1) by auto
    then show ?thesis using b that(2) v unfolding relaxed_def by auto
  qed
  have h5: "in_heap l v = Some w'
      \<or> ((w', v, Some u) \<in> set (heap l') \<and> (v, w') \<in> set (x # rest) \<and> v \<notin> visited l)"
    if "in_heap l' v = Some w'" for v w'
  proof -
    from b that consider "in_heap l2 v = Some w'"
      | "(w', v, Some u) \<in> set (heap l')" "(v, w') \<in> set rest" "v \<notin> visited l2"
      unfolding relaxed_def by blast
    then show ?thesis
    proof cases
      case 1
      then consider "in_heap l v = Some w'"
        | "(w', v, Some u) \<in> set (heap l2)" "(v, w') \<in> set [x]" "v \<notin> visited l"
        using a unfolding relaxed_def by blast
      then show ?thesis
      proof cases
        case 1
        then show ?thesis by simp
      next
        case 2
        moreover have "set (heap l2) \<subseteq> set (heap l')"
          using b unfolding relaxed_def by blast
        ultimately show ?thesis by auto
      qed
    next
      case 2
      then show ?thesis using v by auto
    qed
  qed
  show ?thesis
    unfolding relaxed_def using v h1 h2 h3 h4 h5 by blast
qed

lemma relax_effect: "relax u nbrs (s, l) = (s', l') \<Longrightarrow> relaxed u nbrs l l'"
proof (induction nbrs arbitrary: s l)
  case Nil
  then show ?case by (simp add: relaxed_Nil)
next
  case (Cons x nbrs)
  obtain v w where x: "x = (v, w)" by (cases x)
  show ?case
  proof (cases "v \<notin> visited l \<and> (case in_heap l v of None \<Rightarrow> True | Some w' \<Rightarrow> w < w')")
    case True
    let ?l2 = "l\<lparr>heap := heappush (heap l) (w, v, Some u), in_heap := (in_heap l)(v \<mapsto> w)\<rparr>"
    have "relax u nbrs (s\<lparr>edge_comparisons := edge_comparisons s + 1\<rparr>, ?l2) = (s', l')"
      using Cons.prems True by (simp add: x)
    from Cons.IH[OF this] have r: "relaxed u nbrs ?l2 l'" .
    have "relaxed u [(v, w)] l ?l2"
      using True by (intro relaxed_push) (auto split: option.splits)
    from relaxed_Cons[OF this r] show ?thesis by (simp add: x)
  next
    case False
    then have "relax u nbrs (s, l) = (s', l')"
      using Cons.prems by (auto simp: x split: if_splits)
    from Cons.IH[OF this] have r: "relaxed u nbrs l l'" .
    have "relaxed u [(v, w)] l l"
      using False by (intro relaxed_skip) (auto split: option.splits)
    from relaxed_Cons[OF this r] show ?thesis by (simp add: x)
  qed
qed

section \<open>Prim's loop and the graph\<close>

definition edge_parent :: "edge \<Rightarrow> nat" where
  "edge_parent e = fst e"

definition edge_child :: "edge \<Rightarrow> nat" where
  "edge_child e = fst (snd e)"

text \<open>
  An edge sequence \<open>(parent, child, weight)\<close> is a tree rooted at node 0 when no node is
  the child of two edges, node 0 is no child, and the parent of each edge is node 0 or
  the child of an earlier edge.
\<close>

definition rooted_at_0 :: "edge list \<Rightarrow> bool" where
  "rooted_at_0 es \<longleftrightarrow>
     distinct (map edge_child es) \<and> 0 \<notin> edge_child ` set es
     \<and> (\<forall>i<length es. edge_parent (es ! i) = 0
           \<or> (\<exists>j<i. edge_child (es ! j) = edge_parent (es ! i)))"

text \<open>
  The invariant of the loop \<open>while heap\<close> on a graph of \<open>n\<close> nodes whose edges, in both
  directions, are \<open>U\<close>, clause by clause: the entries of the heap are edges from visited
  nodes (but for the first entry); an unvisited node of the heap is a key of \<open>in_heap\<close>,
  whose value is at most the entry's weight and is the weight of some entry; an unvisited
  neighbour of a visited node is a key, with at most the weight of the edge; the edges
  of the result join visited nodes.
\<close>

definition heap_ok :: "nat \<Rightarrow> edge set \<Rightarrow> prim_locals \<Rightarrow> bool" where
  "heap_ok n U l \<longleftrightarrow>
     (\<forall>w v p. (w, v, p) \<in> set (heap l) \<longrightarrow>
        v < n \<and> (case p of None \<Rightarrow> visited l = {} | Some a \<Rightarrow> a \<in> visited l \<and> (a, v, w) \<in> U))"

definition key_ok :: "prim_locals \<Rightarrow> bool" where
  "key_ok l \<longleftrightarrow>
     (\<forall>w v p. (w, v, p) \<in> set (heap l) \<longrightarrow> v \<notin> visited l
        \<longrightarrow> (\<exists>w'. in_heap l v = Some w' \<and> w' \<le> w))"

definition entry_ok :: "prim_locals \<Rightarrow> bool" where
  "entry_ok l \<longleftrightarrow>
     (\<forall>v w'. v \<notin> visited l \<longrightarrow> in_heap l v = Some w' \<longrightarrow> (\<exists>p. (w', v, p) \<in> set (heap l)))"

definition frontier_ok :: "edge set \<Rightarrow> prim_locals \<Rightarrow> bool" where
  "frontier_ok U l \<longleftrightarrow>
     (\<forall>a b w. a \<in> visited l \<longrightarrow> b \<notin> visited l \<longrightarrow> (a, b, w) \<in> U
        \<longrightarrow> (\<exists>w'. in_heap l b = Some w' \<and> w' \<le> w))"

definition mst_ok :: "edge set \<Rightarrow> prim_locals \<Rightarrow> bool" where
  "mst_ok U l \<longleftrightarrow>
     (\<forall>a b w. (a, b, w) \<in> set (mst_edges l)
        \<longrightarrow> a \<in> visited l \<and> b \<in> visited l \<and> (a, b, w) \<in> U)"

definition reach_ok :: "prim_locals \<Rightarrow> bool" where
  "reach_ok l \<longleftrightarrow> (\<forall>v\<in>visited l. (0, v) \<in> conn (set (mst_edges l)))"

definition start_ok :: "prim_locals \<Rightarrow> bool" where
  "start_ok l \<longleftrightarrow>
     (if visited l = {} then heap l = [(0, 0, None)] \<and> mst_edges l = []
      else visited l = insert 0 (edge_child ` set (mst_edges l)))"

definition prim_inv :: "nat \<Rightarrow> edge set \<Rightarrow> prim_locals \<Rightarrow> bool" where
  "prim_inv n U l \<longleftrightarrow>
     visited l \<subseteq> {..<n} \<and> heap_ok n U l \<and> start_ok l \<and> key_ok l \<and> entry_ok l
     \<and> frontier_ok U l \<and> mst_ok U l \<and> reach_ok l \<and> rooted_at_0 (mst_edges l)
     \<and> distinct (mst_edges l) \<and> acyclic_edges (set (mst_edges l))"

lemma prim_invI:
  assumes "visited l \<subseteq> {..<n}"
    and "\<And>w v p. (w, v, p) \<in> set (heap l) \<Longrightarrow>
           v < n \<and> (case p of None \<Rightarrow> visited l = {} | Some a \<Rightarrow> a \<in> visited l \<and> (a, v, w) \<in> U)"
    and "visited l = {} \<Longrightarrow> heap l = [(0, 0, None)] \<and> mst_edges l = []"
    and "\<And>w v p. (w, v, p) \<in> set (heap l) \<Longrightarrow> v \<notin> visited l
           \<Longrightarrow> \<exists>w'. in_heap l v = Some w' \<and> w' \<le> w"
    and "\<And>v w'. v \<notin> visited l \<Longrightarrow> in_heap l v = Some w'
           \<Longrightarrow> \<exists>p. (w', v, p) \<in> set (heap l)"
    and "\<And>a b w. a \<in> visited l \<Longrightarrow> b \<notin> visited l \<Longrightarrow> (a, b, w) \<in> U
           \<Longrightarrow> \<exists>w'. in_heap l b = Some w' \<and> w' \<le> w"
    and "\<And>a b w. (a, b, w) \<in> set (mst_edges l)
           \<Longrightarrow> a \<in> visited l \<and> b \<in> visited l \<and> (a, b, w) \<in> U"
    and "visited l \<noteq> {} \<Longrightarrow> visited l = insert 0 (edge_child ` set (mst_edges l))"
    and "rooted_at_0 (mst_edges l)"
    and "\<And>v. v \<in> visited l \<Longrightarrow> (0, v) \<in> conn (set (mst_edges l))"
    and "distinct (mst_edges l)" and "acyclic_edges (set (mst_edges l))"
  shows "prim_inv n U l"
proof -
  have "heap_ok n U l" unfolding heap_ok_def using assms(2) by blast
  moreover have "start_ok l" unfolding start_ok_def using assms(3,8) by auto
  moreover have "key_ok l" unfolding key_ok_def using assms(4) by blast
  moreover have "entry_ok l" unfolding entry_ok_def using assms(5) by blast
  moreover have "frontier_ok U l" unfolding frontier_ok_def using assms(6) by blast
  moreover have "mst_ok U l" unfolding mst_ok_def using assms(7) by blast
  moreover have "reach_ok l" unfolding reach_ok_def using assms(10) by blast
  ultimately show ?thesis
    unfolding prim_inv_def using assms(1,9,11,12) by simp
qed

lemma prim_inv_visited: "prim_inv n U l \<Longrightarrow> visited l \<subseteq> {..<n}"
  by (simp add: prim_inv_def)

lemma prim_inv_heap:
  assumes "prim_inv n U l" "(w, v, p) \<in> set (heap l)"
  shows "v < n \<and> (case p of None \<Rightarrow> visited l = {} | Some a \<Rightarrow> a \<in> visited l \<and> (a, v, w) \<in> U)"
proof -
  have "heap_ok n U l" using assms(1) by (simp add: prim_inv_def)
  then show ?thesis unfolding heap_ok_def using assms(2) by blast
qed

lemma prim_inv_start:
  assumes "prim_inv n U l" "visited l = {}"
  shows "heap l = [(0, 0, None)] \<and> mst_edges l = []"
proof -
  have "start_ok l" using assms(1) by (simp add: prim_inv_def)
  then show ?thesis unfolding start_ok_def using assms(2) by simp
qed

lemma prim_inv_key:
  assumes "prim_inv n U l" "(w, v, p) \<in> set (heap l)" "v \<notin> visited l"
  shows "\<exists>w'. in_heap l v = Some w' \<and> w' \<le> w"
proof -
  have "key_ok l" using assms(1) by (simp add: prim_inv_def)
  then show ?thesis unfolding key_ok_def using assms(2,3) by blast
qed

lemma prim_inv_entry:
  assumes "prim_inv n U l" "v \<notin> visited l" "in_heap l v = Some w'"
  shows "\<exists>p. (w', v, p) \<in> set (heap l)"
proof -
  have "entry_ok l" using assms(1) by (simp add: prim_inv_def)
  then show ?thesis unfolding entry_ok_def using assms(2,3) by blast
qed

lemma prim_inv_frontier:
  assumes "prim_inv n U l" "a \<in> visited l" "b \<notin> visited l" "(a, b, w) \<in> U"
  shows "\<exists>w'. in_heap l b = Some w' \<and> w' \<le> w"
proof -
  have "frontier_ok U l" using assms(1) by (simp add: prim_inv_def)
  then show ?thesis unfolding frontier_ok_def using assms(2,3,4) by blast
qed

lemma prim_inv_mst:
  assumes "prim_inv n U l" "(a, b, w) \<in> set (mst_edges l)"
  shows "a \<in> visited l \<and> b \<in> visited l \<and> (a, b, w) \<in> U"
proof -
  have "mst_ok U l" using assms(1) by (simp add: prim_inv_def)
  then show ?thesis unfolding mst_ok_def using assms(2) by blast
qed

lemma prim_inv_children:
  assumes "prim_inv n U l" "visited l \<noteq> {}"
  shows "visited l = insert 0 (edge_child ` set (mst_edges l))"
proof -
  have "start_ok l" using assms(1) by (simp add: prim_inv_def)
  then show ?thesis unfolding start_ok_def using assms(2) by simp
qed

lemma prim_inv_rooted: "prim_inv n U l \<Longrightarrow> rooted_at_0 (mst_edges l)"
  by (simp add: prim_inv_def)

lemma prim_inv_conn:
  assumes "prim_inv n U l" "v \<in> visited l"
  shows "(0, v) \<in> conn (set (mst_edges l))"
proof -
  have "reach_ok l" using assms(1) by (simp add: prim_inv_def)
  then show ?thesis unfolding reach_ok_def using assms(2) by blast
qed

lemma prim_inv_acyclic:
  "prim_inv n U l \<Longrightarrow> distinct (mst_edges l) \<and> acyclic_edges (set (mst_edges l))"
  by (simp add: prim_inv_def)

lemma prim_inv_init:
  assumes "0 < n"
  shows "prim_inv n U \<lparr>visited = {}, heap = [(0, 0, None)], in_heap = [0 \<mapsto> 0], mst_edges = []\<rparr>"
  using assms by (intro prim_invI) (simp_all add: rooted_at_0_def split: if_splits)

lemma min_list_in: "xs \<noteq> [] \<Longrightarrow> min_list xs \<in> set (xs::'a::linorder list)"
  by (simp add: min_list_Min)

lemma min_list_le: "x \<in> set xs \<Longrightarrow> min_list xs \<le> (x::'a::linorder)"
  using min_list_Min[of xs] by (cases "xs = []") auto

lemma entry_le_weight: "(m :: entry) \<le> x \<Longrightarrow> fst m \<le> fst x"
  by (cases m, cases x) (auto simp: less_eq_prod_def)

text \<open>Popping an entry of a visited node.\<close>

lemma prim_inv_stale:
  assumes inv: "prim_inv n U l" and m: "m \<in> set (heap l)" and u: "fst (snd m) \<in> visited l"
  shows "prim_inv n U (l\<lparr>heap := remove1 m (heap l)\<rparr>)"
proof -
  let ?h = "remove1 m (heap l)"
  let ?l = "l\<lparr>heap := ?h\<rparr>"
  have sub: "x \<in> set (heap l)" if "x \<in> set ?h" for x
    using that set_remove1_subset[of m "heap l"] by blast
  have keep: "x \<in> set ?h" if "x \<in> set (heap l)" "fst (snd x) \<notin> visited l" for x
    using that u by (cases "x = m") auto
  have ne: "visited l \<noteq> {}" using u by auto
  show ?thesis
  proof (rule prim_invI)
    show "visited ?l \<subseteq> {..<n}" using prim_inv_visited[OF inv] by simp
    show "v < n \<and> (case p of None \<Rightarrow> visited ?l = {} | Some a \<Rightarrow> a \<in> visited ?l \<and> (a, v, w) \<in> U)"
      if "(w, v, p) \<in> set (heap ?l)" for w v p
      using prim_inv_heap[OF inv sub[of "(w, v, p)"]] that by (simp split: option.splits)
    show "heap ?l = [(0, 0, None)] \<and> mst_edges ?l = []" if "visited ?l = {}"
      using that ne by simp
    show "\<exists>w'. in_heap ?l v = Some w' \<and> w' \<le> w"
      if "(w, v, p) \<in> set (heap ?l)" "v \<notin> visited ?l" for w v p
      using prim_inv_key[OF inv sub[of "(w, v, p)"]] that by simp
    show "\<exists>p. (w', v, p) \<in> set (heap ?l)"
      if "v \<notin> visited ?l" "in_heap ?l v = Some w'" for v w'
    proof -
      from prim_inv_entry[OF inv, of v w'] that obtain p where "(w', v, p) \<in> set (heap l)"
        by auto
      then have "(w', v, p) \<in> set ?h" using keep[of "(w', v, p)"] that(1) by simp
      then show ?thesis by auto
    qed
    show "\<exists>w'. in_heap ?l b = Some w' \<and> w' \<le> w"
      if "a \<in> visited ?l" "b \<notin> visited ?l" "(a, b, w) \<in> U" for a b w
      using prim_inv_frontier[OF inv, of a b w] that by simp
    show "a \<in> visited ?l \<and> b \<in> visited ?l \<and> (a, b, w) \<in> U"
      if "(a, b, w) \<in> set (mst_edges ?l)" for a b w
      using prim_inv_mst[OF inv, of a b w] that by simp
    show "visited ?l = insert 0 (edge_child ` set (mst_edges ?l))" if "visited ?l \<noteq> {}"
      using prim_inv_children[OF inv] that by simp
    show "rooted_at_0 (mst_edges ?l)" using prim_inv_rooted[OF inv] by simp
    show "(0, v) \<in> conn (set (mst_edges ?l))" if "v \<in> visited ?l" for v
      using prim_inv_conn[OF inv, of v] that by simp
    show "distinct (mst_edges ?l)" "acyclic_edges (set (mst_edges ?l))"
      using prim_inv_acyclic[OF inv] by simp_all
  qed
qed

text \<open>Appending an edge from a node of the tree to a new node keeps the tree rooted.\<close>

lemma rooted_at_0_snoc:
  assumes r: "rooted_at_0 es" and a: "a \<in> insert 0 (edge_child ` set es)"
    and u: "u \<notin> insert 0 (edge_child ` set es)"
  shows "rooted_at_0 (es @ [(a, u, w)])"
proof -
  have d: "distinct (map edge_child (es @ [(a, u, w)]))"
    using r u by (auto simp: rooted_at_0_def edge_child_def)
  have z: "0 \<notin> edge_child ` set (es @ [(a, u, w)])"
    using r u by (auto simp: rooted_at_0_def edge_child_def)
  have p: "edge_parent ((es @ [(a, u, w)]) ! i) = 0
      \<or> (\<exists>j<i. edge_child ((es @ [(a, u, w)]) ! j) = edge_parent ((es @ [(a, u, w)]) ! i))"
    if "i < length (es @ [(a, u, w)])" for i
  proof (cases "i < length es")
    case True
    then have "edge_parent (es ! i) = 0 \<or> (\<exists>j<i. edge_child (es ! j) = edge_parent (es ! i))"
      using r by (simp add: rooted_at_0_def)
    then show ?thesis
    proof
      assume "edge_parent (es ! i) = 0"
      then show ?thesis using True by (simp add: nth_append)
    next
      assume "\<exists>j<i. edge_child (es ! j) = edge_parent (es ! i)"
      then obtain j where j: "j < i" "edge_child (es ! j) = edge_parent (es ! i)" by blast
      have "(es @ [(a, u, w)]) ! j = es ! j" "(es @ [(a, u, w)]) ! i = es ! i"
        using j(1) True by (simp_all add: nth_append)
      then show ?thesis using j by auto
    qed
  next
    case False
    then have i: "i = length es" using that by simp
    show ?thesis
    proof (cases "a = 0")
      case True
      then show ?thesis by (simp add: i edge_parent_def)
    next
      case False
      then obtain e where "e \<in> set es" "edge_child e = a" using a by auto
      then obtain j where j: "j < length es" "es ! j = e" by (auto simp: in_set_conv_nth)
      have "(es @ [(a, u, w)]) ! j = e" "(es @ [(a, u, w)]) ! i = (a, u, w)"
        using j i by (simp_all add: nth_append)
      then show ?thesis using \<open>edge_child e = a\<close> j(1) i
        by (auto simp: edge_parent_def)
    qed
  qed
  show ?thesis unfolding rooted_at_0_def using d z p by blast
qed

text \<open>Popping an entry of an unvisited node: the node is visited and its neighbours relaxed.\<close>

lemma prim_inv_visit:
  assumes inv: "prim_inv n U l" and m: "m \<in> set (heap l)" and mu: "m = (w, u, p)"
    and u: "u \<notin> visited l"
    and rel: "relaxed u nbrs (visit l m (remove1 m (heap l))) l'"
    and nb: "set nbrs = {(v, x). (u, v, x) \<in> U}"
    and wf: "\<And>a b x. (a, b, x) \<in> U \<Longrightarrow> a < n \<and> b < n"
  shows "prim_inv n U l'"
    and "visited l' = insert u (visited l)"
    and "mst_edges l' = (case p of None \<Rightarrow> mst_edges l | Some a \<Rightarrow> mst_edges l @ [(a, u, w)])"
proof -
  let ?h = "remove1 m (heap l)"
  let ?l1 = "visit l m ?h"
  let ?mst' = "case p of None \<Rightarrow> mst_edges l | Some a \<Rightarrow> mst_edges l @ [(a, u, w)]"
  have l1: "visited ?l1 = insert u (visited l)" "heap ?l1 = ?h"
    "in_heap ?l1 = (in_heap l)(u := None)" "mst_edges ?l1 = ?mst'"
    by (simp_all add: visit_def mu split: option.splits)
  have vis: "visited l' = insert u (visited l)" and mst: "mst_edges l' = ?mst'"
    using rel l1 unfolding relaxed_def by simp_all
  have hsub: "x \<in> set (heap l')" if "x \<in> set ?h" for x
    using rel l1(2) that unfolding relaxed_def by auto
  have hnew: "x \<in> set ?h \<or> (\<exists>v y. x = (y, v, Some u) \<and> (u, v, y) \<in> U \<and> v \<notin> visited l \<and> v \<noteq> u)"
    if "x \<in> set (heap l')" for x
  proof -
    from rel that have "x \<in> set (heap ?l1)
        \<or> (\<exists>v y. x = (y, v, Some u) \<and> (v, y) \<in> set nbrs \<and> v \<notin> visited ?l1)"
      unfolding relaxed_def by blast
    then show ?thesis using l1 nb by auto
  qed
  have mono: "\<exists>w'. in_heap l' v = Some w' \<and> w' \<le> w0"
    if "in_heap l v = Some w0" "v \<noteq> u" for v w0
  proof -
    have "in_heap ?l1 v = Some w0" using that l1(3) by simp
    then show ?thesis using rel unfolding relaxed_def by blast
  qed
  have cover: "\<exists>w'. in_heap l' v = Some w' \<and> w' \<le> y"
    if "(u, v, y) \<in> U" "v \<notin> visited l" "v \<noteq> u" for v y
  proof -
    have "(v, y) \<in> set nbrs" "v \<notin> visited ?l1" using that nb l1(1) by auto
    then show ?thesis using rel unfolding relaxed_def by blast
  qed
  have orig: "in_heap l v = Some w' \<or> (w', v, Some u) \<in> set (heap l')"
    if "in_heap l' v = Some w'" "v \<noteq> u" for v w'
  proof -
    from rel that(1) have "in_heap ?l1 v = Some w' \<or> (w', v, Some u) \<in> set (heap l')"
      unfolding relaxed_def by blast
    then show ?thesis using l1(3) that(2) by auto
  qed
  have hold: "x \<in> set (heap l)" if "x \<in> set ?h" for x
    using that set_remove1_subset[of m "heap l"] by blast
  have keep: "x \<in> set ?h" if "x \<in> set (heap l)" "fst (snd x) \<noteq> u" for x
    using that mu by (cases "x = m") auto
  have un: "u < n" and pm: "case p of None \<Rightarrow> visited l = {} | Some a \<Rightarrow> a \<in> visited l \<and> (a, u, w) \<in> U"
    using prim_inv_heap[OF inv m[unfolded mu]] by simp_all
  have first: "heap l = [m] \<and> mst_edges l = [] \<and> u = 0 \<and> ?h = []" if "visited l = {}"
  proof -
    from prim_inv_start[OF inv that] have hl: "heap l = [(0, 0, None)]" "mst_edges l = []"
      by simp_all
    then have "m = (0, 0, None)" using m by simp
    then show ?thesis using hl mu by simp
  qed
  have pa: "visited l \<noteq> {} \<and> a \<in> visited l \<and> (a, u, w) \<in> U" if "p = Some a" for a
    using pm that by auto
  have pn: "visited l = {}" if "p = None"
    using pm that by simp
  show "visited l' = insert u (visited l)" by (rule vis)
  show "mst_edges l' = ?mst'" by (rule mst)
  show "prim_inv n U l'"
  proof (rule prim_invI)
    show "visited l' \<subseteq> {..<n}"
      using prim_inv_visited[OF inv] un vis by auto
    show "v < n \<and> (case q of None \<Rightarrow> visited l' = {} | Some a \<Rightarrow> a \<in> visited l' \<and> (a, v, y) \<in> U)"
      if "(y, v, q) \<in> set (heap l')" for y v q
    proof -
      from hnew[OF that] consider "(y, v, q) \<in> set ?h" | "q = Some u" "(u, v, y) \<in> U"
        by auto
      then show ?thesis
      proof cases
        case 1
        have ne: "visited l \<noteq> {}" using first 1 by auto
        from prim_inv_heap[OF inv hold[OF 1]] ne show ?thesis
          by (auto simp: vis split: option.splits)
      next
        case 2
        then show ?thesis using wf[of u v y] vis by simp
      qed
    qed
    show "heap l' = [(0, 0, None)] \<and> mst_edges l' = []" if "visited l' = {}"
      using that vis by simp
    show "\<exists>w'. in_heap l' v = Some w' \<and> w' \<le> y"
      if "(y, v, q) \<in> set (heap l')" "v \<notin> visited l'" for y v q
    proof -
      have v: "v \<noteq> u" "v \<notin> visited l" using that(2) vis by auto
      from hnew[OF that(1)] consider "(y, v, q) \<in> set ?h" | "(u, v, y) \<in> U"
        by auto
      then show ?thesis
      proof cases
        case 1
        from prim_inv_key[OF inv hold[OF 1] v(2)] obtain w' where
          "in_heap l v = Some w'" "w' \<le> y" by blast
        then show ?thesis using mono[of v w'] v(1) by force
      next
        case 2
        then show ?thesis using cover v by blast
      qed
    qed
    show "\<exists>q. (w', v, q) \<in> set (heap l')"
      if "v \<notin> visited l'" "in_heap l' v = Some w'" for v w'
    proof -
      have v: "v \<noteq> u" "v \<notin> visited l" using that(1) vis by auto
      from orig[OF that(2) v(1)] show ?thesis
      proof
        assume "in_heap l v = Some w'"
        from prim_inv_entry[OF inv v(2) this] obtain q where "(w', v, q) \<in> set (heap l)"
          by blast
        then have "(w', v, q) \<in> set (heap l')" using keep[of "(w', v, q)"] v(1) hsub by simp
        then show ?thesis ..
      next
        assume "(w', v, Some u) \<in> set (heap l')"
        then show ?thesis ..
      qed
    qed
    show "\<exists>w'. in_heap l' b = Some w' \<and> w' \<le> y"
      if "a \<in> visited l'" "b \<notin> visited l'" "(a, b, y) \<in> U" for a b y
    proof -
      have b: "b \<noteq> u" "b \<notin> visited l" using that(2) vis by auto
      show ?thesis
      proof (cases "a = u")
        case True
        then show ?thesis using cover[of b y] that(3) b by simp
      next
        case False
        then have "a \<in> visited l" using that(1) vis by simp
        from prim_inv_frontier[OF inv this b(2) that(3)] obtain w' where
          "in_heap l b = Some w'" "w' \<le> y" by blast
        then show ?thesis using mono[of b w'] b(1) by force
      qed
    qed
    show "a \<in> visited l' \<and> b \<in> visited l' \<and> (a, b, y) \<in> U"
      if "(a, b, y) \<in> set (mst_edges l')" for a b y
    proof (cases "(a, b, y) \<in> set (mst_edges l)")
      case True
      then show ?thesis using prim_inv_mst[OF inv True] vis by simp
    next
      case False
      have "\<exists>a'. p = Some a' \<and> (a, b, y) = (a', u, w)"
      proof (cases p)
        case None
        then show ?thesis using that mst False by simp
      next
        case (Some a')
        then show ?thesis using that mst False by simp
      qed
      then obtain a' where "p = Some a'" "(a, b, y) = (a', u, w)" by blast
      then show ?thesis using pa[of a'] vis by simp
    qed
    show "visited l' = insert 0 (edge_child ` set (mst_edges l'))" if "visited l' \<noteq> {}"
    proof (cases p)
      case None
      then show ?thesis using first[OF pn[OF None]] pn[OF None] vis mst by simp
    next
      case (Some a)
      then show ?thesis
        using prim_inv_children[OF inv] pa[OF Some] vis mst
        by (auto simp: edge_child_def)
    qed
    show "rooted_at_0 (mst_edges l')"
    proof (cases p)
      case None
      then show ?thesis using prim_inv_rooted[OF inv] mst by simp
    next
      case (Some a)
      have c: "visited l = insert 0 (edge_child ` set (mst_edges l))"
        using prim_inv_children[OF inv] pa[OF Some] by simp
      have "rooted_at_0 (mst_edges l @ [(a, u, w)])"
        using rooted_at_0_snoc[OF prim_inv_rooted[OF inv], of a u w] pa[OF Some] u c by simp
      then show ?thesis using Some mst by simp
    qed
    show "(0, v) \<in> conn (set (mst_edges l'))" if "v \<in> visited l'" for v
    proof (cases p)
      case None
      then show ?thesis using first[OF pn[OF None]] pn[OF None] vis that by simp
    next
      case (Some a)
      have sub: "conn (set (mst_edges l)) \<subseteq> conn (set (mst_edges l'))"
        using mst Some by (intro conn_mono) auto
      have a: "(0, a) \<in> conn (set (mst_edges l'))"
        using prim_inv_conn[OF inv, of a] pa[OF Some] sub by auto
      have "(a, u) \<in> conn (set (mst_edges l'))"
        using mst Some by (intro conn_edge[of a u w]) simp
      then have "(0, u) \<in> conn (set (mst_edges l'))"
        using a conn_trans by blast
      then show ?thesis
        using that vis prim_inv_conn[OF inv, of v] sub by auto
    qed
    show "distinct (mst_edges l')"
    proof (cases p)
      case None
      then show ?thesis using prim_inv_acyclic[OF inv] mst by simp
    next
      case (Some a)
      have "(a, u, w) \<notin> set (mst_edges l)"
        using prim_inv_mst[OF inv, of a u w] u by auto
      then show ?thesis using prim_inv_acyclic[OF inv] mst Some by simp
    qed
    show "acyclic_edges (set (mst_edges l'))"
    proof (cases p)
      case None
      then show ?thesis using prim_inv_acyclic[OF inv] mst by simp
    next
      case (Some a)
      have unt: "\<forall>(a, b, x)\<in>set (mst_edges l). a \<noteq> u \<and> b \<noteq> u"
        using prim_inv_mst[OF inv] u by blast
      have "(a, u) \<notin> conn (set (mst_edges l))"
      proof
        assume "(a, u) \<in> conn (set (mst_edges l))"
        then have "(u, a) \<in> conn (set (mst_edges l))" by (rule conn_sym)
        from conn_untouched[OF unt this] show False using pa[OF Some] u by simp
      qed
      from acyclic_edges_insert[OF _ this, of w] prim_inv_acyclic[OF inv]
      show ?thesis using mst Some by simp
    qed
  qed
qed

text \<open>
  One turn of the loop \<open>while heap\<close>, seen from the graph: nothing but the heap changes
  (a stale entry), or node 0 is visited first, or an edge that is lightest among the
  edges from visited to unvisited nodes is appended and its far end visited.
\<close>

definition prim_step :: "edge set \<Rightarrow> prim_locals \<Rightarrow> prim_locals \<Rightarrow> bool" where
  "prim_step U l l' \<longleftrightarrow>
     (visited l' = visited l \<and> mst_edges l' = mst_edges l)
     \<or> (visited l = {} \<and> visited l' = {0} \<and> mst_edges l' = [])
     \<or> (\<exists>a u w. a \<in> visited l \<and> u \<notin> visited l \<and> (a, u, w) \<in> U
           \<and> visited l' = insert u (visited l) \<and> mst_edges l' = mst_edges l @ [(a, u, w)]
           \<and> (\<forall>a' b w'. a' \<in> visited l \<longrightarrow> b \<notin> visited l \<longrightarrow> (a', b, w') \<in> U \<longrightarrow> w \<le> w'))"

text \<open>The adjacency list of the engine lists the edges \<open>U\<close> of a graph of \<open>n\<close> nodes.\<close>

definition adj_of :: "nat \<Rightarrow> edge set \<Rightarrow> engine \<Rightarrow> bool" where
  "adj_of n U s \<longleftrightarrow>
     length (adj_list s) = n
     \<and> (\<forall>u<n. set (adj_list s ! u) = {(v, x). (u, v, x) \<in> U})
     \<and> (\<forall>a b x. (a, b, x) \<in> U \<longrightarrow> a < n \<and> b < n)"

lemma adj_of_same_graph: "adj_of n U s \<Longrightarrow> same_graph s s' \<Longrightarrow> adj_of n U s'"
  by (simp add: adj_of_def same_graph_def)

lemma prim_body_step:
  assumes inv: "prim_inv n U l" and ne: "heap l \<noteq> []" and adj: "adj_of n U s"
  shows "\<exists>s' l'. prim_body s l = Inr (s', l') \<and> same_graph s s'
           \<and> prim_inv n U l' \<and> prim_step U l l'"
proof -
  define m where "m = min_list (heap l)"
  define h where "h = remove1 m (heap l)"
  obtain w u p where mu: "m = (w, u, p)" by (cases m)
  have pop: "fst (heappop (heap l)) = m" "snd (heappop (heap l)) = h"
    by (simp_all add: heappop_def m_def h_def)
  have m: "m \<in> set (heap l)" using ne by (simp add: m_def min_list_in)
  have mle: "m \<le> x" if "x \<in> set (heap l)" for x
    using that by (simp add: m_def min_list_le)
  have len: "length (adj_list s) = n"
    and nbr: "\<And>v. v < n \<Longrightarrow> set (adj_list s ! v) = {(b, x). (v, b, x) \<in> U}"
    and wf: "\<And>a b x. (a, b, x) \<in> U \<Longrightarrow> a < n \<and> b < n"
    using adj unfolding adj_of_def by blast+
  show ?thesis
  proof (cases "u \<in> visited l")
    case True
    have b: "prim_body s l = Inr (tick s, l\<lparr>heap := h\<rparr>)"
      using True by (simp add: prim_body_eq Let_def pop mu)
    have "prim_inv n U (l\<lparr>heap := h\<rparr>)"
      unfolding h_def using prim_inv_stale[OF inv m] True by (simp add: mu)
    moreover have "prim_step U l (l\<lparr>heap := h\<rparr>)"
      by (simp add: prim_step_def)
    ultimately show ?thesis using b by simp
  next
    case False
    from prim_inv_key[OF inv m[unfolded mu] False] have key: "in_heap l u \<noteq> None"
      by auto
    have un: "u < n" using prim_inv_heap[OF inv m[unfolded mu]] by simp
    obtain s' l' where r: "relax u (adj_list s ! u) (tick s, visit l m h) = (s', l')"
      by (cases "relax u (adj_list s ! u) (tick s, visit l m h)")
    have b: "prim_body s l = Inr (s', l')"
      using False key un len r by (simp add: prim_body_eq Let_def pop mu)
    have sg: "same_graph s s'"
      using relax_same_graph[OF r] same_graph_tick same_graph_trans by blast
    have rel: "relaxed u (adj_list s ! u) (visit l m (remove1 m (heap l))) l'"
      using relax_effect[OF r] by (simp add: h_def)
    have v: "prim_inv n U l'" "visited l' = insert u (visited l)"
      "mst_edges l' = (case p of None \<Rightarrow> mst_edges l | Some a \<Rightarrow> mst_edges l @ [(a, u, w)])"
      using prim_inv_visit[OF inv m mu False rel nbr[OF un]] wf by blast+
    have st: "prim_step U l l'"
    proof (cases p)
      case None
      then have e: "visited l = {}" using prim_inv_heap[OF inv m[unfolded mu]] by simp
      from prim_inv_start[OF inv e] m mu have "u = 0" "mst_edges l = []" by auto
      then show ?thesis using v(2,3) e None by (simp add: prim_step_def)
    next
      case (Some a)
      then have a: "a \<in> visited l" "(a, u, w) \<in> U"
        using prim_inv_heap[OF inv m[unfolded mu]] by simp_all
      have least: "w \<le> w'" if "a' \<in> visited l" "b \<notin> visited l" "(a', b, w') \<in> U" for a' b w'
      proof -
        from prim_inv_frontier[OF inv that] obtain y where y: "in_heap l b = Some y" "y \<le> w'"
          by blast
        from prim_inv_entry[OF inv that(2) y(1)] obtain q where "(y, b, q) \<in> set (heap l)"
          by blast
        from entry_le_weight[OF mle[OF this]] have "w \<le> y" by (simp add: mu)
        then show ?thesis using y(2) by simp
      qed
      have "\<exists>a u w. a \<in> visited l \<and> u \<notin> visited l \<and> (a, u, w) \<in> U
           \<and> visited l' = insert u (visited l) \<and> mst_edges l' = mst_edges l @ [(a, u, w)]
           \<and> (\<forall>a' b w'. a' \<in> visited l \<longrightarrow> b \<notin> visited l \<longrightarrow> (a', b, w') \<in> U \<longrightarrow> w \<le> w')"
        using a False v(2,3) Some least by (intro exI[of _ a] exI[of _ u] exI[of _ w]) simp
      then show ?thesis unfolding prim_step_def by blast
    qed
    show ?thesis using b sg v(1) st by blast
  qed
qed

text \<open>
  The loop returns, and an invariant that each turn keeps holds of what it returns:
  induction along the loop.
\<close>

lemma prim_loop_rule:
  assumes "J s l"
    and "\<And>s l. J s l \<Longrightarrow> heap l \<noteq> [] \<Longrightarrow> \<exists>s' l'. prim_body s l = Inr (s', l') \<and> J s' l'"
  shows "\<exists>s' l'. prim_loop s l = Inr (s', l') \<and> J s' l' \<and> heap l' = []"
  using assms(1)
proof (induction s l rule: prim_loop.induct)
  case (1 s l)
  show ?case
  proof (cases "heap l = []")
    case True
    then show ?thesis using "1.prems" by (simp add: prim_loop.simps)
  next
    case False
    from assms(2)[OF "1.prems" False] obtain s1 l1 where
      b: "prim_body s l = Inr (s1, l1)" and j: "J s1 l1" by blast
    from "1.IH"[OF False b refl j] obtain s' l' where
      "prim_loop s1 l1 = Inr (s', l')" "J s' l'" "heap l' = []" by blast
    then show ?thesis using False b by (subst prim_loop.simps) simp
  qed
qed

section \<open>What Prim's algorithm returns\<close>

lemma undirected_sym: "(a, b, x) \<in> undirected E \<Longrightarrow> (b, a, x) \<in> undirected E"
  by (auto simp: undirected_iff)

lemma links_undirected_iff: "(a, b) \<in> links E \<longleftrightarrow> (\<exists>x. (a, b, x) \<in> undirected E)"
  by (auto simp: links_def undirected_iff)

lemma adj_of_init:
  assumes "init n es = Inr g"
  shows "adj_of n (undirected (set es)) g"
proof -
  note f = init_fields[OF assms]
  have "a < n \<and> b < n" if "(a, b, x) \<in> undirected (set es)" for a b x
    using that f(4) by (auto simp: undirected_iff wf_edges_def)
  then show ?thesis unfolding adj_of_def using f(3,5) by blast
qed

lemma rooted_card:
  assumes "rooted_at_0 es"
  shows "card (insert 0 (edge_child ` set es)) = Suc (length es)"
proof -
  have d: "distinct (map edge_child es)" and z: "0 \<notin> edge_child ` set es"
    using assms by (simp_all add: rooted_at_0_def)
  have "card (edge_child ` set es) = length es"
    using distinct_card[OF d] by simp
  then show ?thesis using z by simp
qed

text \<open>
  When the heap is empty, the visited nodes are the component of node 0, and the edges
  appended are one fewer.
\<close>

lemma prim_inv_final:
  assumes inv: "prim_inv n (undirected E) l" and e: "heap l = []"
  shows "visited l = component_of n E 0" and "card (visited l) = Suc (length (mst_edges l))"
proof -
  let ?U = "undirected E"
  have ne: "visited l \<noteq> {}"
    using prim_inv_start[OF inv] e by auto
  have ch: "visited l = insert 0 (edge_child ` set (mst_edges l))"
    using prim_inv_children[OF inv ne] .
  then have z: "0 \<in> visited l" by simp
  show "card (visited l) = Suc (length (mst_edges l))"
    using rooted_card[OF prim_inv_rooted[OF inv]] ch by simp
  have closed: "b \<in> visited l" if "a \<in> visited l" "(a, b) \<in> links E" for a b
  proof (rule ccontr)
    assume b: "b \<notin> visited l"
    from that(2) obtain x where "(a, b, x) \<in> ?U" using links_undirected_iff by blast
    from prim_inv_frontier[OF inv that(1) b this] obtain y where "in_heap l b = Some y"
      by blast
    from prim_inv_entry[OF inv b this] show False using e by simp
  qed
  have sub: "set (mst_edges l) \<subseteq> ?U"
    using prim_inv_mst[OF inv] by auto
  show "visited l = component_of n E 0"
  proof
    show "visited l \<subseteq> component_of n E 0"
    proof
      fix v assume v: "v \<in> visited l"
      then have "(0, v) \<in> conn ?U"
        using prim_inv_conn[OF inv v] conn_mono[OF sub] by blast
      then show "v \<in> component_of n E 0"
        using prim_inv_visited[OF inv] v by (auto simp: component_of_def)
    qed
    show "component_of n E 0 \<subseteq> visited l"
    proof
      fix v assume "v \<in> component_of n E 0"
      then have "(0, v) \<in> conn E" by (simp add: component_of_def)
      from conn_closed[of "visited l" E 0 v, OF closed z this] show "v \<in> visited l" .
    qed
  qed
qed

lemma prim_loop_result:
  assumes n: "0 < n" and adj: "adj_of n (undirected E) s"
  shows "\<exists>s' l'. prim_loop s \<lparr>visited = {}, heap = [(0, 0, None)], in_heap = [0 \<mapsto> 0],
                             mst_edges = []\<rparr> = Inr (s', l')
           \<and> same_graph s s' \<and> prim_inv n (undirected E) l' \<and> heap l' = []"
proof -
  let ?J = "\<lambda>s' l'. same_graph s s' \<and> prim_inv n (undirected E) l'"
  have step: "\<exists>s' l'. prim_body s1 l1 = Inr (s', l') \<and> ?J s' l'"
    if "?J s1 l1" "heap l1 \<noteq> []" for s1 l1
  proof -
    have "adj_of n (undirected E) s1"
      using adj_of_same_graph[OF adj] that(1) by blast
    from prim_body_step[OF _ that(2) this] that(1) obtain s' l' where
      "prim_body s1 l1 = Inr (s', l')" "same_graph s1 s'" "prim_inv n (undirected E) l'"
      by blast
    then show ?thesis using that(1) same_graph_trans by blast
  qed
  have "?J s \<lparr>visited = {}, heap = [(0, 0, None)], in_heap = [0 \<mapsto> 0], mst_edges = []\<rparr>"
    using prim_inv_init[OF n] by simp
  from prim_loop_rule[of ?J, OF this step] show ?thesis by blast
qed

text \<open>
  \<open>prim_mst\<close> on the engine of a graph with at least one node: it returns a tree rooted
  at node 0 that spans the component of node 0, with the \<open>Unconnected\<close> condition exactly
  when that component is not the whole graph.
\<close>

lemma prim_mst_result:
  assumes g: "init n es = Inr g" and n: "0 < n"
  shows "\<exists>mst s'. prim_mst g t0 t1
           = Inr ((mst, if card (component_of n (set es) 0) < n then Some Unconnected else None), s')
         \<and> Suc (length mst) = card (component_of n (set es) 0)
         \<and> rooted_at_0 mst \<and> distinct mst \<and> acyclic_edges (set mst)
         \<and> set mst \<subseteq> undirected (set es)
         \<and> (\<forall>v\<in>component_of n (set es) 0. (0, v) \<in> conn (set mst))"
proof -
  let ?U = "undirected (set es)"
  let ?g0 = "reset_metrics g"
  note f = init_fields[OF g]
  have "adj_of n ?U ?g0"
    using adj_of_same_graph[OF adj_of_init[OF g], of ?g0]
    by (simp add: same_graph_def reset_metrics_def)
  from prim_loop_result[OF n this] obtain s1 l where
    lp: "prim_loop ?g0 \<lparr>visited = {}, heap = [(0, 0, None)], in_heap = [0 \<mapsto> 0],
                        mst_edges = []\<rparr> = Inr (s1, l)"
    and sg: "same_graph ?g0 s1" and inv: "prim_inv n ?U l" and e: "heap l = []"
    by blast
  note fin = prim_inv_final[OF inv e]
  have n1: "num_nodes s1 = n" "num_nodes ?g0 \<noteq> 0"
    using sg f(1) n by (simp_all add: same_graph_def reset_metrics_def)
  have r: "prim_mst g t0 t1
      = Inr ((mst_edges l, if card (component_of n (set es) 0) < n then Some Unconnected else None),
             s1\<lparr>runtime := (t1 - t0) * 1000\<rparr>)"
    unfolding prim_mst_def Let_def using n1 by (simp add: lp fin(1))
  have sub: "set (mst_edges l) \<subseteq> ?U"
    using prim_inv_mst[OF inv] by auto
  have "\<forall>v\<in>component_of n (set es) 0. (0, v) \<in> conn (set (mst_edges l))"
    using prim_inv_conn[OF inv] fin(1) by simp
  then show ?thesis
    using r fin prim_inv_rooted[OF inv] prim_inv_acyclic[OF inv] sub by auto
qed

section \<open>Spanning trees of connected graphs\<close>

lemma connects_from_0:
  assumes "\<And>v. v < n \<Longrightarrow> (0, v) \<in> conn E"
  shows "connects n E"
  unfolding connects_def using assms conn_sym conn_trans by blast

lemma component_connected:
  assumes "connects n E" "0 < n"
  shows "component_of n E 0 = {..<n}"
  using assms by (auto simp: component_of_def connects_def)

text \<open>
  C1. On a connected graph of \<open>n \<ge> 1\<close> nodes both algorithms return, without a
  condition, \<open>n - 1\<close> distinct edges of the graph (Prim's possibly reversed) that contain
  no cycle and connect all nodes. (No assumption on the weights is needed.)
\<close>

theorem spanning_tree_result:
  assumes g: "init n es = Inr g" and n: "0 < n" and c: "connects n (set es)"
  shows "(\<exists>mst s'. kruskal_mst g t0 t1 = Some (Inr ((mst, None), s'))
            \<and> length mst = n - 1 \<and> distinct mst \<and> set mst \<subseteq> set es
            \<and> acyclic_edges (set mst) \<and> connects n (set mst))
       \<and> (\<exists>mst s'. prim_mst g t0 t1 = Inr ((mst, None), s')
            \<and> length mst = n - 1 \<and> distinct mst \<and> set mst \<subseteq> undirected (set es)
            \<and> acyclic_edges (set mst) \<and> connects n (set mst))"
proof
  note f = init_fields[OF g]
  let ?m = "greedy_forest (sort_key weight_of es) []"
  from kruskal_mst_greedy[OF f(1) n f(2) f(4), of t0 t1] obtain s' where
    k: "kruskal_mst g t0 t1 = Some (Inr ((?m, None), s'))"
    and len: "length ?m + card (components n (set es)) = n"
    by blast
  have "length ?m = n - 1"
    using len components_connected[OF c n] by simp
  moreover have "connects n (set ?m)"
    using c greedy_forest_conn_sort[OF f(4)] by (simp add: connects_def)
  ultimately show "\<exists>mst s'. kruskal_mst g t0 t1 = Some (Inr ((mst, None), s'))
            \<and> length mst = n - 1 \<and> distinct mst \<and> set mst \<subseteq> set es
            \<and> acyclic_edges (set mst) \<and> connects n (set mst)"
    using k greedy_forest_sort_props[of es] by blast
next
  have comp: "component_of n (set es) 0 = {..<n}"
    using component_connected[OF c n] .
  from prim_mst_result[OF g n, of t0 t1] obtain mst s' where
    p: "prim_mst g t0 t1 = Inr ((mst, None), s')"
    and len: "Suc (length mst) = n"
    and props: "distinct mst" "acyclic_edges (set mst)" "set mst \<subseteq> undirected (set es)"
    and reach: "\<forall>v\<in>component_of n (set es) 0. (0, v) \<in> conn (set mst)"
    unfolding comp by auto
  have "connects n (set mst)"
    using reach comp by (intro connects_from_0) simp
  then show "\<exists>mst s'. prim_mst g t0 t1 = Inr ((mst, None), s')
            \<and> length mst = n - 1 \<and> distinct mst \<and> set mst \<subseteq> undirected (set es)
            \<and> acyclic_edges (set mst) \<and> connects n (set mst)"
    using p len props by auto
qed

lemma connects_scenario4: "connects 4 (set (edges_list scenario4))"
proof (rule connects_from_0)
  let ?E = "set (edges_list scenario4)"
  have e: "(0, 1, 5) \<in> ?E" "(1, 2, 3) \<in> ?E" "(0, 3, 10) \<in> ?E"
    by (simp_all add: scenario4_def)
  have c: "(0, 1) \<in> conn ?E" "(1, 2) \<in> conn ?E" "(0, 3) \<in> conn ?E"
    using e[THEN conn_edge] by blast+
  have c2: "(0, 2) \<in> conn ?E"
    using c(1,2) by (rule conn_trans)
  fix v :: nat assume "v < 4"
  then consider "v = 0" | "v = 1" | "v = 2" | "v = 3" by linarith
  then show "(0, v) \<in> conn ?E"
    using c c2 by cases (simp_all only: conn_refl)
qed

theorem spanning_tree_result_witness:
  "init 4 (edges_list scenario4) = Inr scenario4 \<and> (0::nat) < 4
   \<and> connects 4 (set (edges_list scenario4))
   \<and> (\<exists>mst s'. kruskal_mst scenario4 0 1 = Some (Inr ((mst, None), s'))
            \<and> length mst = 4 - 1 \<and> distinct mst \<and> set mst \<subseteq> set (edges_list scenario4)
            \<and> acyclic_edges (set mst) \<and> connects 4 (set mst))
   \<and> (\<exists>mst s'. prim_mst scenario4 0 1 = Inr ((mst, None), s')
            \<and> length mst = 4 - 1 \<and> distinct mst
            \<and> set mst \<subseteq> undirected (set (edges_list scenario4))
            \<and> acyclic_edges (set mst) \<and> connects 4 (set mst))"
proof -
  have i: "init 4 (edges_list scenario4) = Inr scenario4"
    using init_scenario4 by (simp add: scenario4_def)
  show ?thesis
    using spanning_tree_result[OF i _ connects_scenario4, of 0 1] i connects_scenario4
    by simp
qed

section \<open>Disconnected graphs\<close>

text \<open>
  C3. When the component of node 0 has \<open>k < n\<close> nodes, \<open>prim_mst\<close> returns \<open>k - 1\<close> edges
  with the \<open>Unconnected\<close> condition, and \<open>kruskal_mst\<close> returns, without a condition, a
  forest of edges of the graph: acyclic, with \<open>n\<close> minus the number of components edges.
\<close>

theorem disconnected_result:
  assumes g: "init n es = Inr g" and k: "card (component_of n (set es) 0) < n"
  shows "(\<exists>mst s'. prim_mst g t0 t1 = Inr ((mst, Some Unconnected), s')
            \<and> length mst = card (component_of n (set es) 0) - 1)
       \<and> (\<exists>mst s'. kruskal_mst g t0 t1 = Some (Inr ((mst, None), s'))
            \<and> length mst = n - card (components n (set es))
            \<and> distinct mst \<and> set mst \<subseteq> set es \<and> acyclic_edges (set mst))"
proof
  have n: "0 < n" using k by simp
  from prim_mst_result[OF g n, of t0 t1] k
  show "\<exists>mst s'. prim_mst g t0 t1 = Inr ((mst, Some Unconnected), s')
            \<and> length mst = card (component_of n (set es) 0) - 1"
    by force
next
  have n: "0 < n" using k by simp
  note f = init_fields[OF g]
  let ?m = "greedy_forest (sort_key weight_of es) []"
  from kruskal_mst_greedy[OF f(1) n f(2) f(4), of t0 t1] obtain s' where
    "kruskal_mst g t0 t1 = Some (Inr ((?m, None), s'))"
    "length ?m + card (components n (set es)) = n"
    by blast
  then show "\<exists>mst s'. kruskal_mst g t0 t1 = Some (Inr ((mst, None), s'))
            \<and> length mst = n - card (components n (set es))
            \<and> distinct mst \<and> set mst \<subseteq> set es \<and> acyclic_edges (set mst)"
    using greedy_forest_sort_props[of es] by force
qed

lemma component_scenario3: "component_of 3 (set (edges_list scenario3)) 0 = {0, 1}"
proof -
  let ?E = "set (edges_list scenario3)"
  have "(0, 1, 2) \<in> ?E" by (simp add: scenario3_def)
  then have c1: "(0, 1) \<in> conn ?E" by (rule conn_edge)
  have c2: "(0, 2) \<notin> conn ?E"
  proof
    assume "(0, 2) \<in> conn ?E"
    then have "(2, 0) \<in> conn ?E" by (rule conn_sym)
    from conn_untouched[OF _ this] show False by (simp add: scenario3_def)
  qed
  have v3: "v = 0 \<or> v = 1 \<or> v = 2" if "v < 3" for v :: nat
    using that by linarith
  show ?thesis
  proof
    show "component_of 3 ?E 0 \<subseteq> {0, 1}"
    proof
      fix v assume "v \<in> component_of 3 ?E 0"
      then have "v < 3" "(0, v) \<in> conn ?E" by (simp_all add: component_of_def)
      then show "v \<in> {0, 1}" using v3[of v] c2 by auto
    qed
    show "{0, 1} \<subseteq> component_of 3 ?E 0"
      using c1 by (simp add: component_of_def)
  qed
qed

theorem disconnected_result_witness:
  "init 3 (edges_list scenario3) = Inr scenario3
   \<and> card (component_of 3 (set (edges_list scenario3)) 0) < 3
   \<and> (\<exists>mst s'. prim_mst scenario3 0 1 = Inr ((mst, Some Unconnected), s')
            \<and> length mst = card (component_of 3 (set (edges_list scenario3)) 0) - 1)
   \<and> (\<exists>mst s'. kruskal_mst scenario3 0 1 = Some (Inr ((mst, None), s'))
            \<and> length mst = 3 - card (components 3 (set (edges_list scenario3)))
            \<and> distinct mst \<and> set mst \<subseteq> set (edges_list scenario3) \<and> acyclic_edges (set mst))"
proof -
  have i: "init 3 (edges_list scenario3) = Inr scenario3"
    using init_scenario3 by (simp add: scenario3_def)
  have k: "card (component_of 3 (set (edges_list scenario3)) 0) < 3"
    by (simp add: component_scenario3)
  show ?thesis
    using disconnected_result[OF i k, of 0 1] i k by blast
qed

section \<open>The deletion from \<open>in_heap\<close> never fails\<close>

text \<open>
  The states in which \<open>prim_mst\<close> on the engine \<open>g\<close> tests the condition of its loop:
  the state before the loop, and the state after each turn that raises nothing.
\<close>

inductive prim_reaches :: "engine \<Rightarrow> engine \<Rightarrow> prim_locals \<Rightarrow> bool" for g :: engine where
  start: "prim_reaches g (reset_metrics g)
            \<lparr>visited = {}, heap = [(0, 0, None)], in_heap = [0 \<mapsto> 0], mst_edges = []\<rparr>"
| turn: "prim_reaches g s l \<Longrightarrow> heap l \<noteq> [] \<Longrightarrow> prim_body s l = Inr (s', l')
          \<Longrightarrow> prim_reaches g s' l'"

lemma prim_reaches_inv:
  assumes g: "init n es = Inr g" and n: "0 < n" and r: "prim_reaches g s l"
  shows "same_graph g s \<and> prim_inv n (undirected (set es)) l"
  using r
proof (induction rule: prim_reaches.induct)
  case start
  then show ?case
    using prim_inv_init[OF n] by (simp add: same_graph_def reset_metrics_def)
next
  case (turn s l s' l')
  have "adj_of n (undirected (set es)) s"
    using adj_of_same_graph[OF adj_of_init[OF g]] turn.IH by blast
  moreover have "prim_inv n (undirected (set es)) l"
    using turn.IH by simp
  ultimately obtain s2 l2 where "prim_body s l = Inr (s2, l2)" "same_graph s s2"
    "prim_inv n (undirected (set es)) l2"
    using prim_body_step[OF _ turn.hyps(2)] by blast
  then show ?case using turn.hyps(3) turn.IH same_graph_trans by auto
qed

lemma prim_mst_total:
  assumes "init n es = Inr g"
  shows "\<exists>r s'. prim_mst g t0 t1 = Inr (r, s')"
proof (cases "n = 0")
  case True
  then show ?thesis
    using init_fields(1)[OF assms] by (simp add: prim_mst_def reset_metrics_def)
next
  case False
  then show ?thesis using prim_mst_result[OF assms, of t0 t1] by blast
qed

text \<open>
  C9. \<open>prim_mst\<close> returns on every graph, raising nothing; and whenever its loop pops an
  entry whose node \<open>u\<close> is not visited, \<open>u\<close> is a key of \<open>in_heap\<close>, so that
  \<open>del in_heap[u]\<close> finds its key.
\<close>

theorem prim_delete_safe:
  assumes "init n es = Inr g"
  shows "(\<exists>r s'. prim_mst g t0 t1 = Inr (r, s'))
       \<and> (\<forall>s l. 0 < n \<longrightarrow> prim_reaches g s l \<longrightarrow> heap l \<noteq> []
             \<longrightarrow> fst (snd (fst (heappop (heap l)))) \<notin> visited l
             \<longrightarrow> fst (snd (fst (heappop (heap l)))) \<in> dom (in_heap l))"
proof (intro conjI allI impI)
  show "\<exists>r s'. prim_mst g t0 t1 = Inr (r, s')"
    using prim_mst_total[OF assms] .
next
  fix s l
  assume n: "0 < n" and r: "prim_reaches g s l" and ne: "heap l \<noteq> []"
    and u: "fst (snd (fst (heappop (heap l)))) \<notin> visited l"
  define m where "m = min_list (heap l)"
  obtain w v p where m: "m = (w, v, p)" by (cases m)
  have "m \<in> set (heap l)" using ne by (simp add: m_def min_list_in)
  moreover have "prim_inv n (undirected (set es)) l"
    using prim_reaches_inv[OF assms n r] by simp
  moreover have "v \<notin> visited l"
    using u by (simp add: heappop_def m_def[symmetric] m)
  ultimately have "\<exists>w'. in_heap l v = Some w' \<and> w' \<le> w"
    using prim_inv_key[of n _ l w v p] by (simp add: m)
  then show "fst (snd (fst (heappop (heap l)))) \<in> dom (in_heap l)"
    by (auto simp: heappop_def m_def[symmetric] m)
qed

theorem prim_delete_safe_witness:
  "init 4 (edges_list scenario4) = Inr scenario4
   \<and> (0::nat) < 4
   \<and> prim_reaches scenario4 (reset_metrics scenario4)
        \<lparr>visited = {}, heap = [(0, 0, None)], in_heap = [0 \<mapsto> 0], mst_edges = []\<rparr>
   \<and> [(0, 0, None) :: entry] \<noteq> []
   \<and> fst (snd (fst (heappop [(0, 0, None)]))) \<notin> ({} :: nat set)
   \<and> (\<exists>r s'. prim_mst scenario4 0 1 = Inr (r, s'))
   \<and> fst (snd (fst (heappop [(0, 0, None)]))) \<in> dom ([0 \<mapsto> 0] :: nat \<rightharpoonup> int)"
proof -
  have i: "init 4 (edges_list scenario4) = Inr scenario4"
    using init_scenario4 by (simp add: scenario4_def)
  let ?l = "\<lparr>visited = {}, heap = [(0, 0, None)], in_heap = [0 \<mapsto> 0], mst_edges = []\<rparr>"
  have r: "prim_reaches scenario4 (reset_metrics scenario4) ?l"
    by (rule prim_reaches.start)
  from prim_delete_safe[OF i, of 0 1] r i show ?thesis
    by (auto simp: heappop_def)
qed

section \<open>Prim's result is a tree rooted at node 0\<close>

text \<open>
  C10. In the edge sequence that \<open>prim_mst\<close> returns, no node is the child of two edges,
  and the parent of every edge is node 0 or the child of an earlier edge (and node 0 is
  the child of no edge).
\<close>

theorem prim_rooted_tree:
  assumes "init n es = Inr g"
  shows "\<exists>mst err s'. prim_mst g t0 t1 = Inr ((mst, err), s')
           \<and> distinct (map edge_child mst)
           \<and> (\<forall>i<length mst. edge_parent (mst ! i) = 0
                 \<or> (\<exists>j<i. edge_child (mst ! j) = edge_parent (mst ! i)))
           \<and> 0 \<notin> edge_child ` set mst"
proof (cases "n = 0")
  case True
  then have "prim_mst g t0 t1
      = Inr (([], Some EmptyGraph), (reset_metrics g)\<lparr>runtime := (t1 - t0) * 1000\<rparr>)"
    using init_fields(1)[OF assms] by (simp add: prim_mst_def reset_metrics_def)
  then show ?thesis by simp
next
  case False
  then obtain mst err s' where "prim_mst g t0 t1 = Inr ((mst, err), s')" "rooted_at_0 mst"
    using prim_mst_result[OF assms, of t0 t1] by blast
  then show ?thesis unfolding rooted_at_0_def by blast
qed

theorem prim_rooted_tree_witness:
  "init 4 (edges_list scenario4) = Inr scenario4
   \<and> prim_mst scenario4 0 1 =
       Inr (([(0, 1, 5), (1, 2, 3), (2, 3, 1)], None),
            scenario4\<lparr>runtime := 1000, edge_comparisons := 9, iterations := 5\<rparr>)
   \<and> rooted_at_0 [(0, 1, 5), (1, 2, 3), (2, 3, 1)]"
proof -
  have i: "init 4 (edges_list scenario4) = Inr scenario4"
    using init_scenario4 by (simp add: scenario4_def)
  from prim_rooted_tree[OF i, of 0 1] show ?thesis
    unfolding prim_scenario4 rooted_at_0_def using i by simp
qed

section \<open>Kruskal returns on every graph\<close>

lemma kruskal_mst_metrics_free: "same_graph g s \<Longrightarrow> kruskal_mst s t0 t1 = kruskal_mst g t0 t1"
  by (simp add: kruskal_mst_def same_graph_reset[of g s])

lemma prim_mst_metrics_free: "same_graph g s \<Longrightarrow> prim_mst s t0 t1 = prim_mst g t0 t1"
  by (simp add: prim_mst_def same_graph_reset[of g s])

lemma kruskal_mst_total:
  assumes g: "init n es = Inr g" and s: "same_graph g s"
  shows "\<exists>r s'. kruskal_mst s t0 t1 = Some (Inr (r, s'))"
proof (cases "n = 0")
  case True
  then have "num_nodes s = 0" using init_fields(1)[OF g] s by (simp add: same_graph_def)
  then show ?thesis by (simp add: kruskal_mst_def reset_metrics_def)
next
  case False
  note f = init_fields[OF g]
  have "num_nodes s = n" "edges_list s = es"
    using f s by (simp_all add: same_graph_def)
  from kruskal_mst_greedy[OF this(1) _ this(2) f(4), of t0 t1] False
  show ?thesis by blast
qed

lemma prim_mst_total_same:
  assumes g: "init n es = Inr g" and s: "same_graph g s"
  shows "\<exists>r s'. prim_mst s t0 t1 = Inr (r, s')"
proof -
  from prim_mst_total[OF g, of t0 t1] obtain r s' where "prim_mst g t0 t1 = Inr (r, s')"
    by blast
  then show ?thesis
    using prim_mst_metrics_free[OF s, of t0 t1] by simp
qed

section \<open>The order of the edges that Kruskal returns\<close>

text \<open>
  C6. On every graph \<open>kruskal_mst\<close> returns, and the edges it returns are in
  non-decreasing order of weight, the edges of any one weight standing in the order in
  which the input lists them: the result is a subsequence of the stably sorted edge list.
\<close>

theorem kruskal_result_order:
  assumes "init n es = Inr g"
  shows "\<exists>mst err s'. kruskal_mst g t0 t1 = Some (Inr ((mst, err), s'))
           \<and> sorted (map weight_of mst)
           \<and> subseq mst (sort_key weight_of es)
           \<and> (\<forall>k. subseq (filter (\<lambda>e. weight_of e = k) mst)
                          (filter (\<lambda>e. weight_of e = k) es))"
proof -
  from kruskal_mst_total[OF assms, of g t0 t1] obtain mst err s' where
    k: "kruskal_mst g t0 t1 = Some (Inr ((mst, err), s'))"
    by auto
  from kruskal_order_returned[OF k] show ?thesis
    using k init_fields(2)[OF assms] by auto
qed

theorem kruskal_result_order_witness:
  "init 4 (edges_list scenario4) = Inr scenario4
   \<and> (\<exists>mst err s'. kruskal_mst scenario4 0 1 = Some (Inr ((mst, err), s'))
           \<and> sorted (map weight_of mst)
           \<and> subseq mst (sort_key weight_of (edges_list scenario4))
           \<and> (\<forall>k. subseq (filter (\<lambda>e. weight_of e = k) mst)
                          (filter (\<lambda>e. weight_of e = k) (edges_list scenario4))))"
proof -
  have i: "init 4 (edges_list scenario4) = Inr scenario4"
    using init_scenario4 by (simp add: scenario4_def)
  show ?thesis using kruskal_result_order[OF i, of 0 1] i by blast
qed

section \<open>Metrics are reset on every call\<close>

text \<open>
  C7. Let \<open>s\<close> be the engine of a graph in any state of its metrics. A call of
  \<open>kruskal_mst\<close> (of \<open>prim_mst\<close>) on \<open>s\<close> returns, and a second call on the engine it leaves
  returns the same result with the same \<open>iterations\<close> and \<open>edge_comparisons\<close>: the counts
  are those of one call, whatever the counts before.
\<close>

theorem metrics_reset:
  assumes g: "init n es = Inr g" and s: "same_graph g s"
  shows "(\<exists>r s1 s2. kruskal_mst s t0 t1 = Some (Inr (r, s1))
            \<and> kruskal_mst s1 t2 t3 = Some (Inr (r, s2))
            \<and> iterations s2 = iterations s1 \<and> edge_comparisons s2 = edge_comparisons s1
            \<and> kruskal_mst g t0 t1 = Some (Inr (r, s1)))
       \<and> (\<exists>r s1 s2. prim_mst s t0 t1 = Inr (r, s1)
            \<and> prim_mst s1 t2 t3 = Inr (r, s2)
            \<and> iterations s2 = iterations s1 \<and> edge_comparisons s2 = edge_comparisons s1
            \<and> prim_mst g t0 t1 = Inr (r, s1))"
proof
  from kruskal_mst_total[OF g s, of t0 t1] obtain r s1 where
    k: "kruskal_mst s t0 t1 = Some (Inr (r, s1))" by blast
  from second_call_same[of s t0 t1 r s1 t2 t3] k obtain s2 where
    "kruskal_mst s1 t2 t3 = Some (Inr (r, s2))"
    "iterations s2 = iterations s1" "edge_comparisons s2 = edge_comparisons s1"
    by blast
  moreover have "kruskal_mst g t0 t1 = Some (Inr (r, s1))"
    using kruskal_mst_metrics_free[OF s, of t0 t1] k by simp
  ultimately show "\<exists>r s1 s2. kruskal_mst s t0 t1 = Some (Inr (r, s1))
            \<and> kruskal_mst s1 t2 t3 = Some (Inr (r, s2))
            \<and> iterations s2 = iterations s1 \<and> edge_comparisons s2 = edge_comparisons s1
            \<and> kruskal_mst g t0 t1 = Some (Inr (r, s1))"
    using k by blast
next
  from prim_mst_total_same[OF g s, of t0 t1] obtain r s1 where
    k: "prim_mst s t0 t1 = Inr (r, s1)" by blast
  from second_call_same[of s t0 t1 _ _ t2 t3 r s1] k obtain s2 where
    "prim_mst s1 t2 t3 = Inr (r, s2)"
    "iterations s2 = iterations s1" "edge_comparisons s2 = edge_comparisons s1"
    by blast
  moreover have "prim_mst g t0 t1 = Inr (r, s1)"
    using prim_mst_metrics_free[OF s, of t0 t1] k by simp
  ultimately show "\<exists>r s1 s2. prim_mst s t0 t1 = Inr (r, s1)
            \<and> prim_mst s1 t2 t3 = Inr (r, s2)
            \<and> iterations s2 = iterations s1 \<and> edge_comparisons s2 = edge_comparisons s1
            \<and> prim_mst g t0 t1 = Inr (r, s1)"
    using k by blast
qed

theorem metrics_reset_witness:
  "init 4 (edges_list scenario4) = Inr scenario4
   \<and> same_graph scenario4 (scenario4\<lparr>edge_comparisons := 99, iterations := 7\<rparr>)
   \<and> (\<exists>r s1 s2. kruskal_mst (scenario4\<lparr>edge_comparisons := 99, iterations := 7\<rparr>) 0 1
              = Some (Inr (r, s1))
            \<and> kruskal_mst s1 2 3 = Some (Inr (r, s2))
            \<and> iterations s2 = iterations s1 \<and> edge_comparisons s2 = edge_comparisons s1
            \<and> kruskal_mst scenario4 0 1 = Some (Inr (r, s1)))
   \<and> (\<exists>r s1 s2. prim_mst (scenario4\<lparr>edge_comparisons := 99, iterations := 7\<rparr>) 0 1
              = Inr (r, s1)
            \<and> prim_mst s1 2 3 = Inr (r, s2)
            \<and> iterations s2 = iterations s1 \<and> edge_comparisons s2 = edge_comparisons s1
            \<and> prim_mst scenario4 0 1 = Inr (r, s1))"
proof -
  have i: "init 4 (edges_list scenario4) = Inr scenario4"
    using init_scenario4 by (simp add: scenario4_def)
  have s: "same_graph scenario4 (scenario4\<lparr>edge_comparisons := 99, iterations := 7\<rparr>)"
    by (simp add: same_graph_def)
  show ?thesis using metrics_reset[OF i s, of 0 1 2 3] i s by blast
qed

section \<open>Minimum spanning trees: the cut property\<close>

text \<open>
  The weight of an edge set. A minimum connector of a graph is a set of its edges that
  connects all nodes with the least weight among such sets; when no weight is negative,
  the spanning trees of least weight are minimum connectors.
\<close>

definition weight_sum :: "edge set \<Rightarrow> int" where
  "weight_sum T = sum weight_of T"

definition min_connector :: "nat \<Rightarrow> edge set \<Rightarrow> edge set \<Rightarrow> bool" where
  "min_connector n E T \<longleftrightarrow>
     T \<subseteq> E \<and> connects n T \<and> (\<forall>T'. T' \<subseteq> E \<longrightarrow> connects n T' \<longrightarrow> weight_sum T \<le> weight_sum T')"

text \<open>An edge set is promising when a minimum connector contains it.\<close>

definition promising :: "nat \<Rightarrow> edge set \<Rightarrow> edge set \<Rightarrow> bool" where
  "promising n E F \<longleftrightarrow> (\<exists>T. F \<subseteq> T \<and> min_connector n E T)"

lemma total_weight_distinct: "distinct es \<Longrightarrow> total_weight es = weight_sum (set es)"
  by (simp add: total_weight_def weight_sum_def sum_list_distinct_conv_sum_set)

lemma conn_insert_subset:
  assumes "conn A \<subseteq> conn B" and "(x, y) \<in> conn B"
  shows "conn (insert (x, y, z) A) \<subseteq> conn B"
proof
  fix p assume p: "p \<in> conn (insert (x, y, z) A)"
  obtain a b where ab: "p = (a, b)" by (cases p)
  from p[unfolded ab] consider "(a, b) \<in> conn A"
    | "(a, x) \<in> conn A" "(y, b) \<in> conn A" | "(a, y) \<in> conn A" "(x, b) \<in> conn A"
    using conn_insert_cases by blast
  then show "p \<in> conn B"
  proof cases
    case 1
    then show ?thesis using assms(1) ab by blast
  next
    case 2
    then have "(a, x) \<in> conn B" "(y, b) \<in> conn B" using assms(1) by blast+
    then show ?thesis using assms(2) ab conn_trans by blast
  next
    case 3
    then have "(a, y) \<in> conn B" "(x, b) \<in> conn B" using assms(1) by blast+
    then show ?thesis using conn_sym[OF assms(2)] ab conn_trans by blast
  qed
qed

text \<open>
  A path from inside a node set \<open>S\<close> to outside it uses an edge that leaves \<open>S\<close> and
  that can be chosen so that, without it, the path's start is still connected to its
  near end \<open>p\<close> and its far end \<open>q\<close> to the path's end.
\<close>

definition joins :: "edge \<Rightarrow> nat \<Rightarrow> nat \<Rightarrow> bool" where
  "joins f p q \<longleftrightarrow> endpoints f = (p, q) \<or> endpoints f = (q, p)"

definition cut_edge :: "nat set \<Rightarrow> edge set \<Rightarrow> nat \<Rightarrow> nat \<Rightarrow> edge \<Rightarrow> nat \<Rightarrow> nat \<Rightarrow> bool" where
  "cut_edge S T x y f p q \<longleftrightarrow>
     f \<in> T \<and> joins f p q \<and> p \<in> S \<and> q \<notin> S
     \<and> (x, p) \<in> conn (T - {f}) \<and> (q, y) \<in> conn (T - {f})"

lemma joins_conn: "f \<in> T \<Longrightarrow> joins f p q \<Longrightarrow> (p, q) \<in> conn T"
proof -
  assume f: "f \<in> T" and j: "joins f p q"
  obtain a b c where e: "f = (a, b, c)" by (cases f)
  from j consider "a = p" "b = q" | "a = q" "b = p"
    by (auto simp: joins_def endpoints_def e)
  then show ?thesis
  proof cases
    case 1
    then show ?thesis using conn_edge[of p q c T] f e by simp
  next
    case 2
    then show ?thesis using conn_edge'[of q p c T] f e by simp
  qed
qed

lemma links_joins: "(a, b) \<in> links T \<Longrightarrow> \<exists>g\<in>T. joins g a b"
  by (force simp: links_def joins_def endpoints_def)

lemma conn_insert_joins:
  assumes "(a, b) \<in> conn (insert g T)" and "joins g p q"
  shows "(a, b) \<in> conn T
       \<or> ((a, p) \<in> conn T \<and> (q, b) \<in> conn T)
       \<or> ((a, q) \<in> conn T \<and> (p, b) \<in> conn T)"
proof -
  obtain u v w where e: "g = (u, v, w)" by (cases g)
  from assms(2) consider "u = p" "v = q" | "u = q" "v = p"
    by (auto simp: joins_def endpoints_def e)
  then show ?thesis
  proof cases
    case 1
    then show ?thesis using conn_insert_cases[of a b p q w T] assms(1) e by simp
  next
    case 2
    from conn_insert_cases[of a b q p w T] assms(1) e 2
    have "(a, b) \<in> conn T
       \<or> ((a, q) \<in> conn T \<and> (p, b) \<in> conn T)
       \<or> ((a, p) \<in> conn T \<and> (q, b) \<in> conn T)" by simp
    then show ?thesis by blast
  qed
qed

lemma cut_edge_mono:
  assumes "cut_edge S (T - {g}) x y f p q"
  shows "cut_edge S T x y f p q"
proof -
  have "conn (T - {g} - {f}) \<subseteq> conn (T - {f})"
    by (rule conn_mono) auto
  then show ?thesis using assms unfolding cut_edge_def by blast
qed

lemma cut_edge_step:
  assumes c: "cut_edge S T x1 y f p q" and g: "g \<in> T" "joins g x x1" and x: "x \<in> S" "x1 \<in> S"
  shows "cut_edge S T x y f p q"
proof -
  have f: "f \<in> T" "joins f p q" "p \<in> S" "q \<notin> S"
    "(x1, p) \<in> conn (T - {f})" "(q, y) \<in> conn (T - {f})"
    using c by (simp_all add: cut_edge_def)
  have "g \<noteq> f"
  proof
    assume "g = f"
    then have "joins f x x1" using g(2) by simp
    then show False using f(2,3,4) x by (auto simp: joins_def)
  qed
  then have "g \<in> T - {f}" using g(1) by simp
  from joins_conn[OF this g(2)] have "(x, x1) \<in> conn (T - {f})" .
  from conn_trans[OF this f(5)] show ?thesis
    using f unfolding cut_edge_def by simp
qed

lemma crossing_edge:
  assumes "finite T" and "(x, y) \<in> conn T" and "x \<in> S" and "y \<notin> S"
  shows "\<exists>f p q. cut_edge S T x y f p q"
  using assms
proof (induction T arbitrary: x rule: finite_psubset_induct)
  case (psubset T)
  have "x \<in> S \<longrightarrow> (\<exists>f p q. cut_edge S T x y f p q)"
    using psubset.prems(1) unfolding conn_def[of T]
  proof (induction rule: converse_rtrancl_induct)
    case base
    then show ?case using psubset.prems(3) by simp
  next
    case (step x x1)
    show ?case
    proof
      assume xS: "x \<in> S"
      from links_joins[OF step.hyps(1)] obtain g where g: "g \<in> T" "joins g x x1"
        by blast
      have x1y: "(x1, y) \<in> conn T" using step.hyps(2) by (simp add: conn_def)
      show "\<exists>f p q. cut_edge S T x y f p q"
      proof (cases "x1 \<in> S")
        case True
        with step.IH obtain f p q where "cut_edge S T x1 y f p q"
          by blast
        from cut_edge_step[OF this g xS True] show ?thesis by blast
      next
        case False
        show ?thesis
        proof (cases "(x1, y) \<in> conn (T - {g})")
          case True
          have "cut_edge S T x y g x x1"
            unfolding cut_edge_def using g True xS False by simp
          then show ?thesis by blast
        next
          case nc: False
          have T: "insert g (T - {g}) = T" using g(1) by auto
          have "(x1, y) \<in> conn (insert g (T - {g}))"
            using x1y T by simp
          from conn_insert_joins[OF this g(2)] nc
          have "(x, y) \<in> conn (T - {g})" by blast
          moreover have "T - {g} \<subset> T" using g(1) by auto
          ultimately obtain f p q where "cut_edge S (T - {g}) x y f p q"
            using psubset.IH[of "T - {g}" x] xS psubset.prems(3) by blast
          from cut_edge_mono[OF this] show ?thesis by blast
        qed
      qed
    qed
  qed
  then show ?case using psubset.prems(2) by blast
qed

text \<open>
  The cut property: a promising edge set stays promising when a lightest edge leaving a
  node set \<open>S\<close> is added, provided no edge of the set leaves \<open>S\<close>.
\<close>

lemma weight_sum_swap:
  assumes "finite T" "f \<in> T" "e \<notin> T"
  shows "weight_sum (insert e (T - {f})) = weight_sum T - weight_of f + weight_of e"
proof -
  have "weight_sum T = weight_of f + weight_sum (T - {f})"
    unfolding weight_sum_def using assms(1,2) by (rule sum.remove)
  moreover have "weight_sum (insert e (T - {f})) = weight_of e + weight_sum (T - {f})"
    unfolding weight_sum_def using assms(1,3) by (intro sum.insert) auto
  ultimately show ?thesis by simp
qed

lemma exchange:
  assumes fin: "finite E" and mc: "min_connector n E T" and FT: "F \<subseteq> T"
    and e: "(a, u, w) \<in> E" and aS: "a \<in> S" and uS: "u \<notin> S" and an: "a < n" and un: "u < n"
    and nocross: "\<And>f p q. f \<in> F \<Longrightarrow> joins f p q \<Longrightarrow> p \<in> S \<Longrightarrow> q \<in> S"
    and least: "\<And>f p q. f \<in> E \<Longrightarrow> joins f p q \<Longrightarrow> p \<in> S \<Longrightarrow> q \<notin> S \<Longrightarrow> w \<le> weight_of f"
  shows "promising n E (insert (a, u, w) F)"
proof (cases "(a, u, w) \<in> T")
  case True
  then show ?thesis using mc FT unfolding promising_def by blast
next
  case False
  let ?e = "(a, u, w)"
  have TE: "T \<subseteq> E" and cT: "connects n T"
    and minT: "\<And>T'. T' \<subseteq> E \<Longrightarrow> connects n T' \<Longrightarrow> weight_sum T \<le> weight_sum T'"
    using mc unfolding min_connector_def by blast+
  have finT: "finite T" using fin TE finite_subset by blast
  have "(a, u) \<in> conn T" using cT an un by (simp add: connects_def)
  from crossing_edge[OF finT this aS uS] obtain f p q where c: "cut_edge S T a u f p q"
    by blast
  then have f: "f \<in> T" "joins f p q" "p \<in> S" "q \<notin> S"
    "(a, p) \<in> conn (T - {f})" "(q, u) \<in> conn (T - {f})"
    by (simp_all add: cut_edge_def)
  let ?T' = "insert ?e (T - {f})"
  have fF: "f \<notin> F" using nocross[OF _ f(2,3)] f(4) by blast
  have sub: "insert ?e F \<subseteq> ?T'" using FT fF by auto
  have T'E: "?T' \<subseteq> E" using TE e by auto
  have m: "conn (T - {f}) \<subseteq> conn ?T'" by (rule conn_mono) auto
  have "(a, u) \<in> conn ?T'" by (rule conn_edge[of a u w]) simp
  then have pq: "(p, q) \<in> conn ?T'"
    using f(5,6) m by (meson conn_sym conn_trans subsetD)
  obtain x y z where fe: "f = (x, y, z)" by (cases f)
  have "(x, y) \<in> conn ?T'"
    using pq f(2) conn_sym by (auto simp: joins_def endpoints_def fe)
  from conn_insert_subset[OF m this, of z] have "conn T \<subseteq> conn ?T'"
    using f(1) fe by (simp add: insert_absorb)
  then have cT': "connects n ?T'" using cT unfolding connects_def by blast
  have "w \<le> weight_of f" using least[OF _ f(2,3,4)] f(1) TE by blast
  then have "weight_sum ?T' \<le> weight_sum T"
    using weight_sum_swap[OF finT f(1) False] by (simp add: weight_of_def)
  then have "weight_sum ?T' \<le> weight_sum T''" if "T'' \<subseteq> E" "connects n T''" for T''
    using minT[OF that] by simp
  then have "min_connector n E ?T'"
    unfolding min_connector_def using T'E cT' by blast
  then show ?thesis unfolding promising_def using sub by blast
qed

text \<open>A finite graph that connects its nodes has a minimum connector.\<close>

lemma promising_empty:
  assumes "finite E" and "connects n E"
  shows "promising n E {}"
proof -
  let ?C = "{T. T \<subseteq> E \<and> connects n T}"
  have "finite ?C" using assms(1) by simp
  moreover have "E \<in> ?C" using assms(2) by simp
  ultimately have "finite (weight_sum ` ?C)" "weight_sum ` ?C \<noteq> {}"
    by blast+
  from Min_in[OF this] obtain T where T: "T \<in> ?C" "weight_sum T = Min (weight_sum ` ?C)"
    by auto
  have "weight_sum T \<le> weight_sum T'" if "T' \<subseteq> E" "connects n T'" for T'
    using that T(2) \<open>finite (weight_sum ` ?C)\<close> by (simp add: Min_le)
  then have "min_connector n E T"
    unfolding min_connector_def using T(1) by blast
  then show ?thesis unfolding promising_def by blast
qed

text \<open>
  A promising edge set that itself connects the nodes is a minimum connector, when no
  weight is negative.
\<close>

lemma promising_connects:
  assumes "finite E" and "promising n E F" and "connects n F"
    and nonneg: "\<And>f. f \<in> E \<Longrightarrow> 0 \<le> weight_of f"
  shows "min_connector n E F"
proof -
  from assms(2) obtain T where T: "F \<subseteq> T" "min_connector n E T"
    unfolding promising_def by blast
  then have TE: "T \<subseteq> E" and
    minT: "\<And>T'. T' \<subseteq> E \<Longrightarrow> connects n T' \<Longrightarrow> weight_sum T \<le> weight_sum T'"
    unfolding min_connector_def by blast+
  have finT: "finite T" using assms(1) TE finite_subset by blast
  have "weight_sum F \<le> weight_sum T"
    unfolding weight_sum_def using finT T(1) nonneg TE
    by (intro sum_mono2) auto
  then have "weight_sum F \<le> weight_sum T'" if "T' \<subseteq> E" "connects n T'" for T'
    using minT[OF that] by simp
  then show ?thesis
    unfolding min_connector_def using T(1) TE assms(3) by blast
qed

lemma min_connector_unique_weight:
  "min_connector n E A \<Longrightarrow> min_connector n E B \<Longrightarrow> weight_sum A = weight_sum B"
  unfolding min_connector_def by (meson order_antisym)

section \<open>Both algorithms grow a promising edge set\<close>

lemma undirected_joins:
  assumes "f \<in> undirected A" and "joins f p q"
  shows "\<exists>f'\<in>A. weight_of f' = weight_of f \<and> joins f' p q"
proof -
  obtain x y z where e: "f = (x, y, z)" by (cases f)
  from assms(1) consider "(x, y, z) \<in> A" | "(y, x, z) \<in> A"
    by (auto simp: e undirected_iff)
  then show ?thesis
  proof cases
    case 1
    then show ?thesis using assms(2) e by blast
  next
    case 2
    have "weight_of (y, x, z) = weight_of f" "joins (y, x, z) p q"
      using assms(2) by (auto simp: e weight_of_def joins_def endpoints_def)
    then show ?thesis using 2 by blast
  qed
qed

lemma finite_undirected [simp]: "finite (undirected (set es))"
  by (simp add: undirected_def)

lemma undirected_superset: "A \<subseteq> undirected A"
  by (simp add: undirected_def)

text \<open>Kruskal: the edge taken is a lightest edge leaving the component of its first end.\<close>

lemma greedy_forest_promising:
  assumes "promising n (undirected (set (done @ rest))) (set m)"
    and "conn (set m) = conn (set done)"
    and "sorted (map weight_of rest)"
    and "wf_edges n (done @ rest)"
  shows "promising n (undirected (set (done @ rest))) (set (greedy_forest rest m))"
  using assms
proof (induction rest arbitrary: "done" m)
  case Nil
  then show ?case by simp
next
  case (Cons e rest)
  obtain u v w where e: "e = (u, v, w)" by (cases e)
  let ?U = "undirected (set (done @ e # rest))"
  have U: "?U = undirected (set ((done @ [e]) @ rest))" by simp
  have srt: "sorted (map weight_of rest)" using Cons.prems(3) by simp
  have wf: "wf_edges n ((done @ [e]) @ rest)" using Cons.prems(4) by simp
  have uv: "u < n" "v < n" using Cons.prems(4) by (auto simp: wf_edges_def e)
  show ?case
  proof (cases "endpoints e \<in> conn (set m)")
    case True
    then have "conn (insert e (set done)) = conn (set done)"
      using conn_insert_connected[of u v "set done" w] Cons.prems(2)
      by (simp add: e endpoints_def)
    then have c: "conn (set m) = conn (set (done @ [e]))"
      using Cons.prems(2) by simp
    from Cons.IH[of "done @ [e]" m, OF _ c srt wf] Cons.prems(1) True
    show ?thesis by simp
  next
    case False
    then have nc: "(u, v) \<notin> conn (set m)" by (simp add: e endpoints_def)
    let ?S = "{x. (u, x) \<in> conn (set m)}"
    from Cons.prems(1) obtain T where T: "set m \<subseteq> T" "min_connector n ?U T"
      unfolding promising_def by blast
    have eU: "(u, v, w) \<in> ?U" using undirected_superset[of "set (done @ e # rest)"] e by auto
    have nocross: "q \<in> ?S" if "f \<in> set m" "joins f p q" "p \<in> ?S" for f p q
      using joins_conn[OF that(1,2)] that(3) conn_trans by blast
    have least: "w \<le> weight_of f" if "f \<in> ?U" "joins f p q" "p \<in> ?S" "q \<notin> ?S" for f p q
    proof -
      from undirected_joins[OF that(1,2)] obtain f' where
        f': "f' \<in> set (done @ e # rest)" "weight_of f' = weight_of f" "joins f' p q"
        by blast
      have "f' \<notin> set done"
      proof
        assume "f' \<in> set done"
        from joins_conn[OF this f'(3)] have "(p, q) \<in> conn (set m)"
          using Cons.prems(2) by simp
        then show False using that(3,4) conn_trans by blast
      qed
      then have "f' \<in> set (e # rest)" using f'(1) by auto
      then have "weight_of e \<le> weight_of f'"
        using Cons.prems(3) by auto
      then show ?thesis using f'(2) by (simp add: e weight_of_def)
    qed
    have "promising n ?U (insert (u, v, w) (set m))"
    proof (rule exchange[where T = T and S = ?S])
      show "finite ?U" by (rule finite_undirected)
      show "min_connector n ?U T" by (rule T(2))
      show "set m \<subseteq> T" by (rule T(1))
      show "(u, v, w) \<in> ?U" by (rule eU)
      show "u \<in> ?S" by simp
      show "v \<notin> ?S" using nc by simp
      show "u < n" "v < n" by (rule uv)+
      show "\<And>f p q. f \<in> set m \<Longrightarrow> joins f p q \<Longrightarrow> p \<in> ?S \<Longrightarrow> q \<in> ?S"
        by (rule nocross)
      show "\<And>f p q. f \<in> ?U \<Longrightarrow> joins f p q \<Longrightarrow> p \<in> ?S \<Longrightarrow> q \<notin> ?S \<Longrightarrow> w \<le> weight_of f"
        by (rule least)
    qed
    then have p: "promising n (undirected (set ((done @ [e]) @ rest))) (set (m @ [e]))"
      by (simp add: e)
    have c: "conn (set (m @ [e])) = conn (set (done @ [e]))"
      using conn_insert_cong[OF Cons.prems(2), of e] by simp
    from Cons.IH[of "done @ [e]" "m @ [e]", OF p c srt wf] False
    show ?thesis by simp
  qed
qed

text \<open>Prim: the edge appended is a lightest edge leaving the visited nodes.\<close>

lemma prim_step_promising:
  assumes st: "prim_step U l l'" and inv: "prim_inv n U l"
    and pr: "promising n U (set (mst_edges l))" and fin: "finite U"
    and sym: "\<And>a b x. (a, b, x) \<in> U \<Longrightarrow> (b, a, x) \<in> U"
    and wf: "\<And>a b x. (a, b, x) \<in> U \<Longrightarrow> a < n \<and> b < n"
  shows "promising n U (set (mst_edges l'))"
proof -
  from st consider "mst_edges l' = mst_edges l" | "visited l = {}" "mst_edges l' = []"
    | a u w where "a \<in> visited l" "u \<notin> visited l" "(a, u, w) \<in> U"
        "mst_edges l' = mst_edges l @ [(a, u, w)]"
        "\<And>a' b w'. a' \<in> visited l \<Longrightarrow> b \<notin> visited l \<Longrightarrow> (a', b, w') \<in> U \<Longrightarrow> w \<le> w'"
    unfolding prim_step_def by blast
  then show ?thesis
  proof cases
    case 1
    then show ?thesis using pr by simp
  next
    case 2
    then show ?thesis using pr prim_inv_start[OF inv] by simp
  next
    case 3
    from pr obtain T where T: "set (mst_edges l) \<subseteq> T" "min_connector n U T"
      unfolding promising_def by blast
    have nocross: "q \<in> visited l" if "f \<in> set (mst_edges l)" "joins f p q" "p \<in> visited l"
      for f p q
    proof -
      obtain x y z where f: "f = (x, y, z)" by (cases f)
      from prim_inv_mst[OF inv that(1)[unfolded f]] that(2) show ?thesis
        by (auto simp: joins_def endpoints_def f)
    qed
    have least: "w \<le> weight_of f" if "f \<in> U" "joins f p q" "p \<in> visited l" "q \<notin> visited l"
      for f p q
    proof -
      obtain x y z where f: "f = (x, y, z)" by (cases f)
      from that(2) consider "x = p" "y = q" | "x = q" "y = p"
        by (auto simp: joins_def endpoints_def f)
      then have "(p, q, z) \<in> U"
        using that(1) sym by cases (auto simp: f)
      from 3(5)[OF that(3,4) this] show ?thesis by (simp add: f weight_of_def)
    qed
    have "promising n U (insert (a, u, w) (set (mst_edges l)))"
    proof (rule exchange[where T = T and S = "visited l"])
      show "finite U" by (rule fin)
      show "min_connector n U T" by (rule T(2))
      show "set (mst_edges l) \<subseteq> T" by (rule T(1))
      show "(a, u, w) \<in> U" by (rule 3(3))
      show "a \<in> visited l" by (rule 3(1))
      show "u \<notin> visited l" by (rule 3(2))
      show "a < n" "u < n" using wf[OF 3(3)] by simp_all
      show "\<And>f p q. f \<in> set (mst_edges l) \<Longrightarrow> joins f p q \<Longrightarrow> p \<in> visited l
              \<Longrightarrow> q \<in> visited l"
        by (rule nocross)
      show "\<And>f p q. f \<in> U \<Longrightarrow> joins f p q \<Longrightarrow> p \<in> visited l \<Longrightarrow> q \<notin> visited l
              \<Longrightarrow> w \<le> weight_of f"
        by (rule least)
    qed
    then show ?thesis using 3(4) by simp
  qed
qed

lemma prim_loop_promising:
  assumes n: "0 < n" and adj: "adj_of n (undirected (set es)) s"
    and c: "connects n (set es)"
  shows "\<exists>s' l'. prim_loop s \<lparr>visited = {}, heap = [(0, 0, None)], in_heap = [0 \<mapsto> 0],
                             mst_edges = []\<rparr> = Inr (s', l')
           \<and> promising n (undirected (set es)) (set (mst_edges l'))"
proof -
  let ?U = "undirected (set es)"
  let ?J = "\<lambda>s' l'. same_graph s s' \<and> prim_inv n ?U l' \<and> promising n ?U (set (mst_edges l'))"
  have wf: "\<And>a b x. (a, b, x) \<in> ?U \<Longrightarrow> a < n \<and> b < n"
    using adj unfolding adj_of_def by blast
  have step: "\<exists>s' l'. prim_body s1 l1 = Inr (s', l') \<and> ?J s' l'"
    if "?J s1 l1" "heap l1 \<noteq> []" for s1 l1
  proof -
    have "adj_of n ?U s1"
      using adj_of_same_graph[OF adj] that(1) by blast
    from prim_body_step[OF _ that(2) this] that(1) obtain s' l' where
      b: "prim_body s1 l1 = Inr (s', l')" "same_graph s1 s'" "prim_inv n ?U l'"
        "prim_step ?U l1 l'"
      by blast
    have "promising n ?U (set (mst_edges l'))"
      using prim_step_promising[OF b(4) _ _ _ undirected_sym wf] that(1) by simp
    then show ?thesis using b that(1) same_graph_trans by blast
  qed
  have "connects n ?U" using c by (simp add: connects_def)
  then have "promising n ?U {}" by (intro promising_empty) simp_all
  then have "?J s \<lparr>visited = {}, heap = [(0, 0, None)], in_heap = [0 \<mapsto> 0], mst_edges = []\<rparr>"
    using prim_inv_init[OF n] by simp
  from prim_loop_rule[of ?J, OF this step] show ?thesis by blast
qed

end
